theory Spec2Isabelle
  imports Complex_Main "HOL-Library.Sublist" "HOL-Library.Log_Nat"
begin

section \<open>JavaScript strings\<close>

text \<open>
  A JavaScript string is a sequence of UTF-16 code units; \<open>length\<close> counts code
  units, as \<^verbatim>\<open>String.prototype.length\<close> does. A code unit is modelled as a natural
  number. ASCII text is written with \<open>js\<close>; the accented letters of the source are
  written by their code unit (the source files are in composed form, one code unit per
  accented letter).
\<close>

type_synonym jsstring = "nat list"

definition js :: "string \<Rightarrow> jsstring" where
  "js s = map of_char s"

subsection \<open>Built-in string operations\<close>

text \<open>\<^verbatim>\<open>s.split(' ')\<close>: the pieces between single spaces; never the empty list.\<close>

fun splitSpace :: "jsstring \<Rightarrow> jsstring list" where
  "splitSpace [] = [[]]"
| "splitSpace (c # cs) =
    (if c = 32 then [] # splitSpace cs
     else (case splitSpace cs of [] \<Rightarrow> [[c]] | w # ws \<Rightarrow> (c # w) # ws))"

text \<open>\<^verbatim>\<open>arr.join(' ')\<close>\<close>

fun joinSpace :: "jsstring list \<Rightarrow> jsstring" where
  "joinSpace [] = []"
| "joinSpace [w] = w"
| "joinSpace (w # ws) = w @ 32 # joinSpace ws"

fun startsWith :: "jsstring \<Rightarrow> jsstring \<Rightarrow> bool" where
  "startsWith s [] = True"
| "startsWith [] (p # ps) = False"
| "startsWith (c # cs) (p # ps) = (c = p \<and> startsWith cs ps)"

text \<open>\<^verbatim>\<open>s.includes(sub)\<close>\<close>

fun includesStr :: "jsstring \<Rightarrow> jsstring \<Rightarrow> bool" where
  "includesStr [] sub = (sub = [])"
| "includesStr (c # cs) sub = (startsWith (c # cs) sub \<or> includesStr cs sub)"

text \<open>
  \<^verbatim>\<open>s.toLowerCase()\<close>, exact on code units below U+0100 (ASCII and Latin-1: the
  letters A-Z and U+00C0-U+00DE except the multiplication sign are moved up by 32).
  Code units above that range are left as they are.
\<close>

definition lowerUnit :: "nat \<Rightarrow> nat" where
  "lowerUnit c =
    (if (65 \<le> c \<and> c \<le> 90) \<or> (0xC0 \<le> c \<and> c \<le> 0xDE \<and> c \<noteq> 0xD7) then c + 32 else c)"

definition toLowerCase :: "jsstring \<Rightarrow> jsstring" where
  "toLowerCase s = map lowerUnit s"



section \<open>Headline shortener (\<^verbatim>\<open>finalizeHeadline\<close>, \<^verbatim>\<open>fixNominationEndings\<close>)\<close>

subsection \<open>Character classes of the regular expressions\<close>

text \<open>
  \<^verbatim>\<open>\s\<close>, which is also the set \<^verbatim>\<open>trim()\<close> strips: the white space and line
  terminator code units.
\<close>

definition isSpace :: "nat \<Rightarrow> bool" where
  "isSpace c =
    (c \<in> set [9, 10, 11, 12, 13, 32, 0xA0, 0x1680, 0x2028, 0x2029, 0x202F, 0x205F, 0x3000, 0xFEFF]
     \<or> (0x2000 \<le> c \<and> c \<le> 0x200A))"

text \<open>
  \<^verbatim>\<open>\w\<close>, on which \<^verbatim>\<open>\b\<close> is built: without the \<^verbatim>\<open>u\<close> flag it is
  \<^verbatim>\<open>[A-Za-z0-9_]\<close>, so an accented letter is not a word character.
\<close>

definition isWordChar :: "nat \<Rightarrow> bool" where
  "isWordChar c = ((48 \<le> c \<and> c \<le> 57) \<or> (65 \<le> c \<and> c \<le> 90) \<or> c = 95 \<or> (97 \<le> c \<and> c \<le> 122))"

text \<open>
  The case folding of the \<^verbatim>\<open>i\<close> flag (upper-casing of one code unit), exact below
  U+0100 for the comparison with the letters of the source's patterns: a code unit
  outside ASCII never folds to an ASCII letter, and only U+00E9/U+00C9 fold to U+00C9
  (likewise for the other accented letters of the patterns).
\<close>

definition canonicalize :: "nat \<Rightarrow> nat" where
  "canonicalize c =
    (if (97 \<le> c \<and> c \<le> 122) \<or> (0xE0 \<le> c \<and> c \<le> 0xFE \<and> c \<noteq> 0xF7) then c - 32 else c)"

definition matchCI :: "jsstring \<Rightarrow> jsstring \<Rightarrow> bool" where
  "matchCI pat s =
    (length pat \<le> length s \<and> map canonicalize (take (length pat) s) = map canonicalize pat)"

definition endsWithCI :: "jsstring \<Rightarrow> jsstring \<Rightarrow> bool" where
  "endsWithCI pat s =
    (length pat \<le> length s
     \<and> map canonicalize (drop (length s - length pat) s) = map canonicalize pat)"

subsection \<open>Normalisation\<close>

text \<open>
  \<^verbatim>\<open>.replace(/U+2026|\.\.\./g, '')\<close>: a single
  left-to-right pass that removes each ellipsis character and each group of exactly
  three periods.
\<close>

fun removeEllipsis :: "jsstring \<Rightarrow> jsstring" where
  "removeEllipsis [] = []"
| "removeEllipsis (c # cs) =
    (if c = 0x2026 then removeEllipsis cs
     else if startsWith (c # cs) [46, 46, 46] then removeEllipsis (drop 2 cs)
     else c # removeEllipsis cs)"

text \<open>
  \<^verbatim>\<open>.replace(/\s+/g, ' ')\<close>: every maximal run of white space becomes one space. The
  flag says that the previous code unit belonged to the run being replaced.
\<close>

fun collapseFrom :: "bool \<Rightarrow> jsstring \<Rightarrow> jsstring" where
  "collapseFrom inRun [] = []"
| "collapseFrom inRun (c # cs) =
    (if isSpace c then (if inRun then collapseFrom True cs else 32 # collapseFrom True cs)
     else c # collapseFrom False cs)"

definition collapseWs :: "jsstring \<Rightarrow> jsstring" where
  "collapseWs s = collapseFrom False s"

definition trimEnd :: "jsstring \<Rightarrow> jsstring" where
  "trimEnd s = rev (dropWhile isSpace (rev s))"

definition trim :: "jsstring \<Rightarrow> jsstring" where
  "trim s = trimEnd (dropWhile isSpace s)"

definition normalize1 :: "jsstring \<Rightarrow> jsstring" where
  "normalize1 text = trim (collapseWs (removeEllipsis text))"

subsection \<open>Subtitle separators\<close>

text \<open>
  The four separators: an em dash (U+2014), a hyphen or an en dash (U+2013) between two
  spaces, and a colon followed by a space.
\<close>

definition splitters :: "jsstring list" where
  "splitters = [[32, 0x2014, 32], js '' - '', [32, 0x2013, 32], js '': '']"

text \<open>\<^verbatim>\<open>t.split(s)[0]\<close>: the text before the first occurrence of \<open>s\<close>.\<close>

fun beforeFirst :: "jsstring \<Rightarrow> jsstring \<Rightarrow> jsstring" where
  "beforeFirst sep [] = []"
| "beforeFirst sep (c # cs) = (if startsWith (c # cs) sep then [] else c # beforeFirst sep cs)"

text \<open>
  The loop over the separators. \<^verbatim>\<open>head.length >= maxLength * 0.6\<close> compares an integer
  with a floating-point product, which is the exact \<open>0.6 * maxLength\<close> whenever that is
  an integer and at least 0.2 away from every integer otherwise; the comparison is
  \<open>5 * length head \<ge> 3 * maxLength\<close>.
\<close>

fun cutAtSplitters :: "jsstring list \<Rightarrow> nat \<Rightarrow> jsstring \<Rightarrow> jsstring" where
  "cutAtSplitters [] maxLength t = t"
| "cutAtSplitters (s # ss) maxLength t =
    (if includesStr t s then
       (let head = beforeFirst s t
        in if 5 * length head \<ge> 3 * maxLength then trim head
           else cutAtSplitters ss maxLength t)
     else cutAtSplitters ss maxLength t)"

subsection \<open>Stop-word removal\<close>

text \<open>
  \<^verbatim>\<open>t.replace(/\b(w1|w2|...)\b/gi, '')\<close>. At each position the alternatives are tried
  in order; an alternative matches if the text continues with it up to case, a word
  boundary precedes it and a word boundary follows it. \<open>prevWord\<close> says whether the code
  unit before the position is a word character (false at the start).
\<close>

definition matchesWord :: "bool \<Rightarrow> jsstring \<Rightarrow> jsstring \<Rightarrow> bool" where
  "matchesWord prevWord s alt =
    (alt \<noteq> [] \<and> matchCI alt s
     \<and> prevWord \<noteq> isWordChar (hd s)
     \<and> isWordChar (s ! (length alt - 1))
         \<noteq> (length alt < length s \<and> isWordChar (s ! length alt)))"

text \<open>
  The scan: \<open>skip\<close> counts the code units of the current match that are still to be
  dropped. Matching looks at the original text only, as the regular expression does.
\<close>

fun removeWordsFrom :: "jsstring list \<Rightarrow> bool \<Rightarrow> nat \<Rightarrow> jsstring \<Rightarrow> jsstring" where
  "removeWordsFrom alts prevWord skip [] = []"
| "removeWordsFrom alts prevWord skip (c # cs) =
    (if skip > 0 then removeWordsFrom alts (isWordChar c) (skip - 1) cs
     else (case List.find (matchesWord prevWord (c # cs)) alts of
             Some alt \<Rightarrow> removeWordsFrom alts (isWordChar c) (length alt - 1) cs
           | None \<Rightarrow> c # removeWordsFrom alts (isWordChar c) 0 cs))"

definition removeWords :: "jsstring list \<Rightarrow> jsstring \<Rightarrow> jsstring" where
  "removeWords alts t = removeWordsFrom alts False 0 t"

definition removalRoundsRx :: "jsstring list list" where
  "removalRoundsRx =
    [[js ''para'', js ''por'', js ''com'', js ''sobre'', js ''entre'', js ''ap'' @ [0xF3] @ js ''s'',
      js ''antes'', js ''durante''],
     [js ''de'', js ''da'', js ''do'', js ''das'', js ''dos'', js ''no'', js ''na'', js ''nos'',
      js ''nas''],
     [[0xE9], js ''foi'', js ''ser'' @ [0xE1], js ''est'' @ [0xE1], js ''est'' @ [0xE3] @ js ''o'',
      js ''foram'', js ''seriam'', js ''seriam'', js ''ser'' @ [0xE1], js ''seriam'']]"

text \<open>
  \<^verbatim>\<open>for (const rx of removalRounds) { if (t.length <= maxLength) break; t = ... }\<close>
\<close>

fun removalRounds :: "jsstring list list \<Rightarrow> nat \<Rightarrow> jsstring \<Rightarrow> jsstring" where
  "removalRounds [] maxLength t = t"
| "removalRounds (rx # rest) maxLength t =
    (if length t \<le> maxLength then t
     else removalRounds rest maxLength (trim (collapseWs (removeWords rx t))))"

subsection \<open>Word packing and bad endings\<close>

fun packWords :: "nat \<Rightarrow> jsstring \<Rightarrow> jsstring list \<Rightarrow> jsstring" where
  "packWords maxLength acc [] = acc"
| "packWords maxLength acc (w # ws) =
    (let next = (if acc \<noteq> [] then acc @ 32 # w else w)
     in if length next \<le> maxLength then packWords maxLength next ws else acc)"

definition packToFit :: "nat \<Rightarrow> jsstring \<Rightarrow> jsstring" where
  "packToFit maxLength t =
    (if length t > maxLength then trim (packWords maxLength [] (splitSpace t)) else t)"

definition badEndings :: "jsstring list" where
  "badEndings =
    [js ''de'', js ''da'', js ''do'', js ''das'', js ''dos'', js ''no'', js ''na'', js ''nos'', js ''nas'',
     js ''em'', js ''por'', js ''para'', js ''com'', [0xE9], js ''foi'', js ''ser'' @ [0xE1],
     js ''est'' @ [0xE1], js ''s'' @ [0xE3] @ js ''o'', js ''foram'', js ''nomeado'', js ''nomeada'',
     js ''anunciado'', js ''anunciada'', js ''confirmado'', js ''confirmada'']"

text \<open>
  \<^verbatim>\<open>while (tokens.length > 1 && badEndings.has(tokens[tokens.length - 1].toLowerCase()))
  tokens.pop()\<close>
\<close>

function dropBadEndings :: "jsstring list \<Rightarrow> jsstring list" where
  "dropBadEndings tokens =
    (if length tokens > 1 \<and> toLowerCase (last tokens) \<in> set badEndings
     then dropBadEndings (butlast tokens) else tokens)"
  by pat_completeness auto
termination
  by (relation "measure length") auto

declare dropBadEndings.simps [simp del]

definition repairEnding :: "jsstring \<Rightarrow> jsstring" where
  "repairEnding t = trim (joinSpace (dropBadEndings (splitSpace t)))"

subsection \<open>The nomination endings\<close>

definition endsNomeado :: "jsstring \<Rightarrow> bool" where
  "endsNomeado t = (endsWithCI (js ''nomeado'') t \<or> endsWithCI (js ''nomeada'') t)"

definition endsEhNomeado :: "jsstring \<Rightarrow> bool" where
  "endsEhNomeado t =
    (endsWithCI ([0xE9] @ js '' nomeado'') t \<or> endsWithCI ([0xE9] @ js '' nomeada'') t)"

text \<open>
  \<^verbatim>\<open>t.replace(/\s+X nomead[oa]$/i, ' nomeado')\<close>, where \<open>X\<close> is U+00E9: the match is
  the end of the text together with the whole run of white space before \<open>X\<close>.
\<close>

definition replaceEhNomeado :: "jsstring \<Rightarrow> jsstring" where
  "replaceEhNomeado t =
    (let n = length t
     in if endsEhNomeado t \<and> n \<ge> 10 \<and> isSpace (t ! (n - 10))
        then trimEnd (take (n - 10) t) @ js '' nomeado''
        else t)"

text \<open>\<^verbatim>\<open>/\bnomead[oa]$/i.test(t)\<close>: a word boundary precedes the \<open>n\<close>.\<close>

definition nominationTest :: "jsstring \<Rightarrow> bool" where
  "nominationTest t =
    (endsNomeado t \<and> (length t = 7 \<or> \<not> isWordChar (t ! (length t - 8))))"

text \<open>\<^verbatim>\<open>/\bX nomead[oa]$/i.test(t)\<close>: \<open>X\<close> is no word character, so a word character precedes it.\<close>

definition ehNominationTest :: "jsstring \<Rightarrow> bool" where
  "ehNominationTest t =
    (endsEhNomeado t \<and> length t > 9 \<and> isWordChar (t ! (length t - 10)))"

text \<open>Step 6: \<^verbatim>\<open>if (/\bnomead[oa]$/i.test(t)) t = t.replace(/\s*nomead[oa]$/i, '').trim()\<close>\<close>

definition nominationCut :: "jsstring \<Rightarrow> jsstring" where
  "nominationCut t =
    (let t = replaceEhNomeado t
     in if nominationTest t then trim (trimEnd (take (length t - 7) t)) else t)"

definition finalizeHeadline :: "jsstring \<Rightarrow> nat \<Rightarrow> jsstring" where
  "finalizeHeadline text maxLength =
    (if text = [] then text
     else (let t = normalize1 text;
               t = cutAtSplitters splitters maxLength t;
               t = removalRounds removalRoundsRx maxLength t;
               t = packToFit maxLength t;
               t = repairEnding t
           in nominationCut t))"

definition fixNominationEndings :: "jsstring \<Rightarrow> jsstring" where
  "fixNominationEndings text =
    (if text = [] then text
     else if nominationTest text
       then trim (take (length text - 7) text @ js ''assume cargo'')
     else if ehNominationTest text
       then trim (take (length text - 9) text @ js ''assume cargo'')
     else text)"

section \<open>The second server variant: normaliser and conservative clamp\<close>

subsection \<open>Canonical composition (\<^verbatim>\<open>String.prototype.normalize('NFC')\<close>)\<close>

text \<open>
  \<^verbatim>\<open>normalize('NFC')\<close> decomposes every character canonically, orders the combining
  marks by combining class, and composes again. It is modelled on the strings
  \<open>nfcCovered\<close> describes, whose code units are

    \<^item> the code units below U+0300 (ASCII, Latin-1, Latin Extended-A and B, IPA and
      spacing modifiers),
    \<^item> General Punctuation from U+2002 to U+205F (spaces, dashes, quotation marks, the
      ellipsis character),
    \<^item> the combining marks grave U+0300, acute U+0301, circumflex U+0302, tilde U+0303 and
      diaeresis U+0308, all of combining class 230, and
    \<^item> the precomposed letters of the table \<open>compositions\<close>.

  The table holds the canonical compositions of the Unicode character database whose
  second element is one of the five marks and whose first element is below U+0300 or a
  letter of the table. On a covered string decomposition followed by composition gives
  every precomposed letter back, and no two marks change places, so the result is
  obtained from the left: a mark is merged into the character before it when the table
  has the pair, and stays, blocking the marks after it, when it has not. Every other
  code unit of a covered string starts a new character.

  Strings with other code units (the cedilla U+0327 and the other marks, Hangul,
  surrogates) are outside the model; a statement that depends on the result of
  \<^verbatim>\<open>normalize\<close> is made for covered strings.
\<close>

definition combiningMarks :: "nat list" where
  "combiningMarks = [0x0300, 0x0301, 0x0302, 0x0303, 0x0308]"

definition compositions :: "((nat \<times> nat) \<times> nat) list" where
  "compositions =
    [((0x0041, 0x0300), 0x00C0), ((0x0041, 0x0301), 0x00C1), ((0x0041, 0x0302), 0x00C2),
     ((0x0041, 0x0303), 0x00C3), ((0x0041, 0x0308), 0x00C4), ((0x0043, 0x0301), 0x0106),
     ((0x0043, 0x0302), 0x0108), ((0x0045, 0x0300), 0x00C8), ((0x0045, 0x0301), 0x00C9),
     ((0x0045, 0x0302), 0x00CA), ((0x0045, 0x0303), 0x1EBC), ((0x0045, 0x0308), 0x00CB),
     ((0x0047, 0x0301), 0x01F4), ((0x0047, 0x0302), 0x011C), ((0x0048, 0x0302), 0x0124),
     ((0x0048, 0x0308), 0x1E26), ((0x0049, 0x0300), 0x00CC), ((0x0049, 0x0301), 0x00CD),
     ((0x0049, 0x0302), 0x00CE), ((0x0049, 0x0303), 0x0128), ((0x0049, 0x0308), 0x00CF),
     ((0x004A, 0x0302), 0x0134), ((0x004B, 0x0301), 0x1E30), ((0x004C, 0x0301), 0x0139),
     ((0x004D, 0x0301), 0x1E3E), ((0x004E, 0x0300), 0x01F8), ((0x004E, 0x0301), 0x0143),
     ((0x004E, 0x0303), 0x00D1), ((0x004F, 0x0300), 0x00D2), ((0x004F, 0x0301), 0x00D3),
     ((0x004F, 0x0302), 0x00D4), ((0x004F, 0x0303), 0x00D5), ((0x004F, 0x0308), 0x00D6),
     ((0x0050, 0x0301), 0x1E54), ((0x0052, 0x0301), 0x0154), ((0x0053, 0x0301), 0x015A),
     ((0x0053, 0x0302), 0x015C), ((0x0055, 0x0300), 0x00D9), ((0x0055, 0x0301), 0x00DA),
     ((0x0055, 0x0302), 0x00DB), ((0x0055, 0x0303), 0x0168), ((0x0055, 0x0308), 0x00DC),
     ((0x0056, 0x0303), 0x1E7C), ((0x0057, 0x0300), 0x1E80), ((0x0057, 0x0301), 0x1E82),
     ((0x0057, 0x0302), 0x0174), ((0x0057, 0x0308), 0x1E84), ((0x0058, 0x0308), 0x1E8C),
     ((0x0059, 0x0300), 0x1EF2), ((0x0059, 0x0301), 0x00DD), ((0x0059, 0x0302), 0x0176),
     ((0x0059, 0x0303), 0x1EF8), ((0x0059, 0x0308), 0x0178), ((0x005A, 0x0301), 0x0179),
     ((0x005A, 0x0302), 0x1E90), ((0x0061, 0x0300), 0x00E0), ((0x0061, 0x0301), 0x00E1),
     ((0x0061, 0x0302), 0x00E2), ((0x0061, 0x0303), 0x00E3), ((0x0061, 0x0308), 0x00E4),
     ((0x0063, 0x0301), 0x0107), ((0x0063, 0x0302), 0x0109), ((0x0065, 0x0300), 0x00E8),
     ((0x0065, 0x0301), 0x00E9), ((0x0065, 0x0302), 0x00EA), ((0x0065, 0x0303), 0x1EBD),
     ((0x0065, 0x0308), 0x00EB), ((0x0067, 0x0301), 0x01F5), ((0x0067, 0x0302), 0x011D),
     ((0x0068, 0x0302), 0x0125), ((0x0068, 0x0308), 0x1E27), ((0x0069, 0x0300), 0x00EC),
     ((0x0069, 0x0301), 0x00ED), ((0x0069, 0x0302), 0x00EE), ((0x0069, 0x0303), 0x0129),
     ((0x0069, 0x0308), 0x00EF), ((0x006A, 0x0302), 0x0135), ((0x006B, 0x0301), 0x1E31),
     ((0x006C, 0x0301), 0x013A), ((0x006D, 0x0301), 0x1E3F), ((0x006E, 0x0300), 0x01F9),
     ((0x006E, 0x0301), 0x0144), ((0x006E, 0x0303), 0x00F1), ((0x006F, 0x0300), 0x00F2),
     ((0x006F, 0x0301), 0x00F3), ((0x006F, 0x0302), 0x00F4), ((0x006F, 0x0303), 0x00F5),
     ((0x006F, 0x0308), 0x00F6), ((0x0070, 0x0301), 0x1E55), ((0x0072, 0x0301), 0x0155),
     ((0x0073, 0x0301), 0x015B), ((0x0073, 0x0302), 0x015D), ((0x0074, 0x0308), 0x1E97),
     ((0x0075, 0x0300), 0x00F9), ((0x0075, 0x0301), 0x00FA), ((0x0075, 0x0302), 0x00FB),
     ((0x0075, 0x0303), 0x0169), ((0x0075, 0x0308), 0x00FC), ((0x0076, 0x0303), 0x1E7D),
     ((0x0077, 0x0300), 0x1E81), ((0x0077, 0x0301), 0x1E83), ((0x0077, 0x0302), 0x0175),
     ((0x0077, 0x0308), 0x1E85), ((0x0078, 0x0308), 0x1E8D), ((0x0079, 0x0300), 0x1EF3),
     ((0x0079, 0x0301), 0x00FD), ((0x0079, 0x0302), 0x0177), ((0x0079, 0x0303), 0x1EF9),
     ((0x0079, 0x0308), 0x00FF), ((0x007A, 0x0301), 0x017A), ((0x007A, 0x0302), 0x1E91),
     ((0x00A8, 0x0300), 0x1FED), ((0x00A8, 0x0301), 0x0385), ((0x00C2, 0x0300), 0x1EA6),
     ((0x00C2, 0x0301), 0x1EA4), ((0x00C2, 0x0303), 0x1EAA), ((0x00C5, 0x0301), 0x01FA),
     ((0x00C6, 0x0301), 0x01FC), ((0x00C7, 0x0301), 0x1E08), ((0x00CA, 0x0300), 0x1EC0),
     ((0x00CA, 0x0301), 0x1EBE), ((0x00CA, 0x0303), 0x1EC4), ((0x00CF, 0x0301), 0x1E2E),
     ((0x00D4, 0x0300), 0x1ED2), ((0x00D4, 0x0301), 0x1ED0), ((0x00D4, 0x0303), 0x1ED6),
     ((0x00D5, 0x0301), 0x1E4C), ((0x00D5, 0x0308), 0x1E4E), ((0x00D8, 0x0301), 0x01FE),
     ((0x00DC, 0x0300), 0x01DB), ((0x00DC, 0x0301), 0x01D7), ((0x00E2, 0x0300), 0x1EA7),
     ((0x00E2, 0x0301), 0x1EA5), ((0x00E2, 0x0303), 0x1EAB), ((0x00E5, 0x0301), 0x01FB),
     ((0x00E6, 0x0301), 0x01FD), ((0x00E7, 0x0301), 0x1E09), ((0x00EA, 0x0300), 0x1EC1),
     ((0x00EA, 0x0301), 0x1EBF), ((0x00EA, 0x0303), 0x1EC5), ((0x00EF, 0x0301), 0x1E2F),
     ((0x00F4, 0x0300), 0x1ED3), ((0x00F4, 0x0301), 0x1ED1), ((0x00F4, 0x0303), 0x1ED7),
     ((0x00F5, 0x0301), 0x1E4D), ((0x00F5, 0x0308), 0x1E4F), ((0x00F8, 0x0301), 0x01FF),
     ((0x00FC, 0x0300), 0x01DC), ((0x00FC, 0x0301), 0x01D8), ((0x0102, 0x0300), 0x1EB0),
     ((0x0102, 0x0301), 0x1EAE), ((0x0102, 0x0303), 0x1EB4), ((0x0103, 0x0300), 0x1EB1),
     ((0x0103, 0x0301), 0x1EAF), ((0x0103, 0x0303), 0x1EB5), ((0x0112, 0x0300), 0x1E14),
     ((0x0112, 0x0301), 0x1E16), ((0x0113, 0x0300), 0x1E15), ((0x0113, 0x0301), 0x1E17),
     ((0x014C, 0x0300), 0x1E50), ((0x014C, 0x0301), 0x1E52), ((0x014D, 0x0300), 0x1E51),
     ((0x014D, 0x0301), 0x1E53), ((0x0168, 0x0301), 0x1E78), ((0x0169, 0x0301), 0x1E79),
     ((0x016A, 0x0308), 0x1E7A), ((0x016B, 0x0308), 0x1E7B), ((0x01A0, 0x0300), 0x1EDC),
     ((0x01A0, 0x0301), 0x1EDA), ((0x01A0, 0x0303), 0x1EE0), ((0x01A1, 0x0300), 0x1EDD),
     ((0x01A1, 0x0301), 0x1EDB), ((0x01A1, 0x0303), 0x1EE1), ((0x01AF, 0x0300), 0x1EEA),
     ((0x01AF, 0x0301), 0x1EE8), ((0x01AF, 0x0303), 0x1EEE), ((0x01B0, 0x0300), 0x1EEB),
     ((0x01B0, 0x0301), 0x1EE9), ((0x01B0, 0x0303), 0x1EEF)]"

definition composite :: "nat \<Rightarrow> nat \<Rightarrow> nat option" where
  "composite c u = (if u \<in> set combiningMarks then map_of compositions (c, u) else None)"

fun composeMarks :: "nat \<Rightarrow> jsstring \<Rightarrow> jsstring" where
  "composeMarks c [] = [c]"
| "composeMarks c (u # us) =
    (case composite c u of
       Some c' \<Rightarrow> composeMarks c' us
     | None \<Rightarrow> c # composeMarks u us)"

definition normalizeNFC :: "jsstring \<Rightarrow> jsstring" where
  "normalizeNFC s = (case s of [] \<Rightarrow> [] | c # cs \<Rightarrow> composeMarks c cs)"

definition nfcCovered :: "jsstring \<Rightarrow> bool" where
  "nfcCovered s =
    list_all (\<lambda>u. u < 0x0300 \<or> (0x2002 \<le> u \<and> u \<le> 0x205F) \<or> u \<in> set combiningMarks
                  \<or> u \<in> set (map snd compositions)) s"

subsection \<open>Entity decoding, ellipsis removal and the clamp\<close>

definition entities :: "(jsstring \<times> jsstring) list" where
  "entities =
    [(js ''&amp;'', js ''&''),
     (js ''&lt;'', js ''<''),
     (js ''&gt;'', js ''>''),
     (js ''&quot;'', [0x22]),
     (js ''&apos;'', [0x27]),
     (js ''&nbsp;'', js '' ''),
     (js ''&aacute;'', [0xE1]),
     (js ''&Aacute;'', [0xC1]),
     (js ''&agrave;'', [0xE0]),
     (js ''&Agrave;'', [0xC0]),
     (js ''&acirc;'', [0xE2]),
     (js ''&Acirc;'', [0xC2]),
     (js ''&atilde;'', [0xE3]),
     (js ''&Atilde;'', [0xC3]),
     (js ''&auml;'', [0xE4]),
     (js ''&Aumel;'', [0xC4]),
     (js ''&eacute;'', [0xE9]),
     (js ''&Eacute;'', [0xC9]),
     (js ''&egrave;'', [0xE8]),
     (js ''&Egrave;'', [0xC8]),
     (js ''&ecirc;'', [0xEA]),
     (js ''&Ecirc;'', [0xCA]),
     (js ''&iacute;'', [0xED]),
     (js ''&Iacute;'', [0xCD]),
     (js ''&igrave;'', [0xEC]),
     (js ''&Igrave;'', [0xCC]),
     (js ''&icirc;'', [0xEE]),
     (js ''&Icirc;'', [0xCE]),
     (js ''&oacute;'', [0xF3]),
     (js ''&Oacute;'', [0xD3]),
     (js ''&ograve;'', [0xF2]),
     (js ''&Ograve;'', [0xD2]),
     (js ''&ocirc;'', [0xF4]),
     (js ''&Ocirc;'', [0xD4]),
     (js ''&otilde;'', [0xF5]),
     (js ''&Otilde;'', [0xD5]),
     (js ''&uacute;'', [0xFA]),
     (js ''&Uacute;'', [0xDA]),
     (js ''&ugrave;'', [0xF9]),
     (js ''&Ugrave;'', [0xD9]),
     (js ''&ucirc;'', [0xFB]),
     (js ''&Ucirc;'', [0xDB]),
     (js ''&ccedil;'', [0xE7]),
     (js ''&Ccedil;'', [0xC7]),
     (js ''&ordm;'', [0xBA]),
     (js ''&ordf;'', [0xAA]),
     (js ''&deg;'', [0xB0]),
     (js ''&plusmn;'', [0xB1]),
     (js ''&sup1;'', [0xB9]),
     (js ''&sup2;'', [0xB2]),
     (js ''&sup3;'', [0xB3]),
     (js ''&frac14;'', [0xBC]),
     (js ''&frac12;'', [0xBD]),
     (js ''&frac34;'', [0xBE]),
     (js ''&iquest;'', [0xBF]),
     (js ''&iexcl;'', [0xA1]),
     (js ''&laquo;'', [0xAB]),
     (js ''&raquo;'', [0xBB]),
     (js ''&ldquo;'', [0x22]),
     (js ''&rdquo;'', [0x22]),
     (js ''&lsquo;'', [0x27]),
     (js ''&rsquo;'', [0x27]),
     (js ''&ndash;'', [0x2013]),
     (js ''&mdash;'', [0x2014])]"

definition isAlnum :: "nat \<Rightarrow> bool" where
  "isAlnum c = ((48 \<le> c \<and> c \<le> 57) \<or> (65 \<le> c \<and> c \<le> 90) \<or> (97 \<le> c \<and> c \<le> 122))"

text \<open>
  \<^verbatim>\<open>text.replace(/&[a-zA-Z0-9]+;/g, (entity) => entities[entity] || entity)\<close>: an
  ampersand, a non-empty run of letters and digits, a semicolon. A key of the table
  starts with an ampersand, so the lookup never reaches an inherited member.
\<close>

fun decodeEntities :: "jsstring \<Rightarrow> jsstring" where
  "decodeEntities [] = []"
| "decodeEntities (c # cs) =
    (let name = takeWhile isAlnum cs; rest = dropWhile isAlnum cs
     in if c = 38 \<and> name \<noteq> [] \<and> rest \<noteq> [] \<and> hd rest = 59 then
          (case map_of entities (38 # name @ [59]) of
             Some v \<Rightarrow> v
           | None \<Rightarrow> 38 # name @ [59]) @ decodeEntities (drop (Suc (length name)) cs)
        else c # decodeEntities cs)"

definition decodeHtmlEntitiesAll :: "jsstring \<Rightarrow> jsstring" where
  "decodeHtmlEntitiesAll text = (if text = [] then [] else normalizeNFC (decodeEntities text))"

text \<open>
  \<^verbatim>\<open>.replace(/[U+2026]|\.{3,}/g, '')\<close>: each ellipsis character and each maximal run of
  three or more periods is removed. The flag says that the previous code unit was a
  period of a run being removed.
\<close>

fun removeEllipsisFrom :: "bool \<Rightarrow> jsstring \<Rightarrow> jsstring" where
  "removeEllipsisFrom inRun [] = []"
| "removeEllipsisFrom inRun (c # cs) =
    (if c = 0x2026 then removeEllipsisFrom False cs
     else if c = 46 \<and> (inRun \<or> startsWith cs [46, 46]) then removeEllipsisFrom True cs
     else c # removeEllipsisFrom False cs)"

definition removeEllipsisRuns :: "jsstring \<Rightarrow> jsstring" where
  "removeEllipsisRuns s = removeEllipsisFrom False s"

text \<open>The one-argument \<^verbatim>\<open>finalizeHeadline(text)\<close> of the second variant: the normaliser.\<close>

definition finalizeHeadline_v2 :: "jsstring \<Rightarrow> jsstring" where
  "finalizeHeadline_v2 text =
    (if text = [] then text
     else normalizeNFC (trim (collapseWs (removeEllipsisRuns (decodeHtmlEntitiesAll text)))))"

text \<open>\<^verbatim>\<open>s.lastIndexOf(' ')\<close>, -1 when there is none.\<close>

definition lastIndexOf :: "nat \<Rightarrow> jsstring \<Rightarrow> int" where
  "lastIndexOf c s =
    (if c \<in> set s then int (length s) - 1 - int (length (takeWhile (\<lambda>x. x \<noteq> c) (rev s)))
     else - 1)"

text \<open>\<^verbatim>\<open>const MAX = 60\<close>\<close>

definition MAX_title :: nat where
  "MAX_title = 60"

text \<open>
  The closure \<^verbatim>\<open>conservative\<close> of \<^verbatim>\<open>optimizeTitle\<close>; \<open>cleaned\<close> is its local
  constant of that name.
\<close>

definition cleaned :: "jsstring \<Rightarrow> jsstring" where
  "cleaned title =
    normalizeNFC (trim (collapseWs (removeEllipsisRuns (decodeHtmlEntitiesAll title))))"

definition conservative :: "jsstring \<Rightarrow> jsstring" where
  "conservative title =
    (if length (cleaned title) > MAX_title then
       (let slice = take (MAX_title + 1) (cleaned title);
            cut = lastIndexOf 32 slice
        in trim (if cut > 40 then take (nat cut) slice else take MAX_title (cleaned title)))
     else cleaned title)"

section \<open>Category colours (\<^verbatim>\<open>editorialColors\<close>, \<^verbatim>\<open>barColor\<close>)\<close>

text \<open>
  \<^verbatim>\<open>editorialColors\<close> is an object literal, read with a computed key:
  \<^verbatim>\<open>editorialColors[categoriaParaCor] || editorialColors['default']\<close>. A property read
  on an object literal first looks at the own properties and then at the members the
  literal inherits from \<^verbatim>\<open>Object.prototype\<close>, all of which are functions or objects
  and hence truthy. The value read is therefore a colour string, an inherited member, or
  \<^verbatim>\<open>undefined\<close>.
\<close>

datatype jsvalue = JUndefined | JString jsstring | JInherited jsstring

fun truthy :: "jsvalue \<Rightarrow> bool" where
  "truthy JUndefined = False"
| "truthy (JString s) = (s \<noteq> [])"
| "truthy (JInherited k) = True"

definition editorialColors :: "(jsstring \<times> jsstring) list" where
  "editorialColors =
    [(js ''pol'' @ [0xED] @ js ''cia'', js ''#dc2626''),
     (js ''pol'' @ [0xED] @ js ''tica'', js ''#2563eb''),
     (js ''esporte'', js ''#16a34a''),
     (js ''entretenimento'', js ''#9333ea''),
     (js ''geral'', js ''#ea580c''),
     (js ''default'', js ''#ea580c'')]"

definition objectPrototypeKeys :: "jsstring list" where
  "objectPrototypeKeys =
    [js ''constructor'', js ''__proto__'', js ''hasOwnProperty'', js ''isPrototypeOf'',
     js ''propertyIsEnumerable'', js ''toLocaleString'', js ''toString'', js ''valueOf'',
     js ''__defineGetter__'', js ''__defineSetter__'', js ''__lookupGetter__'',
     js ''__lookupSetter__'']"

definition getProp :: "(jsstring \<times> jsstring) list \<Rightarrow> jsstring \<Rightarrow> jsvalue" where
  "getProp obj k =
    (case map_of obj k of
       Some v \<Rightarrow> JString v
     | None \<Rightarrow> if k \<in> set objectPrototypeKeys then JInherited k else JUndefined)"

text \<open>
  \<^verbatim>\<open>const categoriaParaCor = categoria || 'geral'\<close>: an absent category is \<open>None\<close>;
  the empty string is falsy as well.
\<close>

definition barColor :: "jsstring option \<Rightarrow> jsvalue" where
  "barColor categoria =
    (let categoriaParaCor =
           (case categoria of None \<Rightarrow> js ''geral''
            | Some c \<Rightarrow> if c \<noteq> [] then c else js ''geral'');
         v = getProp editorialColors categoriaParaCor
     in if truthy v then v else getProp editorialColors (js ''default''))"

section \<open>JavaScript numbers\<close>

text \<open>
  A JavaScript number is an IEEE 754 binary64 value. A finite number is held as the
  rational it denotes. A decimal literal and every arithmetic operation yield the exact
  value rounded to the nearest number with a significand of 53 bits, a tie going to the
  even significand: \<open>double x\<close> is that number, for the exact value \<open>x\<close>.

  \<open>binade x\<close> is the exponent \<open>e\<close> with \<open>2 ^ e \<le> x < 2 ^ (e + 1)\<close>, for a positive \<open>x\<close>
  (lemma \<open>binade_bounds\<close>). The exponent is not bounded, so there is neither overflow nor
  a subnormal range: the numbers of the line wrapper are sums and products of string
  lengths and the three width constants, every one of them zero or above 24, and a sum
  beyond the largest finite number would take more than \<open>10 ^ 300\<close> words or characters.
  The width budget is a finite number.
\<close>

type_synonym number = rat

definition roundHalfEven :: "rat \<Rightarrow> int" where
  "roundHalfEven x =
    (let f = \<lfloor>x\<rfloor>; r = x - of_int f
     in if r < 1 / 2 then f else if 1 / 2 < r then f + 1 else if even f then f else f + 1)"

definition binade :: "rat \<Rightarrow> int" where
  "binade x =
    (let (p, q) = quotient_of x;
         d = bitlen p - bitlen q
     in if 2 powi d \<le> x then d else d - 1)"

definition double :: "rat \<Rightarrow> number" where
  "double x =
    (if x = 0 then 0
     else let e = binade \<bar>x\<bar> - 52
          in of_int (roundHalfEven (x / 2 powi e)) * 2 powi e)"

text \<open>The operators \<^verbatim>\<open>+\<close> and \<^verbatim>\<open>*\<close> on numbers.\<close>

definition plus64 :: "number \<Rightarrow> number \<Rightarrow> number" where
  "plus64 x y = double (x + y)"

definition times64 :: "number \<Rightarrow> number \<Rightarrow> number" where
  "times64 x y = double (x * y)"

section \<open>Line wrapper (\<^verbatim>\<open>wrapWordsToWidth\<close>)\<close>

text \<open>
  \<^verbatim>\<open>FONT_SIZE = 76\<close>, \<^verbatim>\<open>CHAR_WIDTH_NORMAL = 0.58\<close>, \<^verbatim>\<open>CHAR_WIDTH_BOLD = 0.62\<close> and
  \<^verbatim>\<open>SPACE_WIDTH = 0.32 * FONT_SIZE\<close>. The word index can be compared with a negative
  \<^verbatim>\<open>boldStart\<close> (\<^verbatim>\<open>findKeywords\<close> returns -1 when it selects nothing), so the span is
  a pair of integers.
\<close>

record styledWord =
  word_text :: jsstring
  isBold :: bool

definition FONT_SIZE :: number where
  "FONT_SIZE = 76"

definition CHAR_WIDTH_NORMAL :: number where
  "CHAR_WIDTH_NORMAL = double (58 / 100)"

definition CHAR_WIDTH_BOLD :: number where
  "CHAR_WIDTH_BOLD = double (62 / 100)"

definition SPACE_WIDTH :: number where
  "SPACE_WIDTH = times64 (double (32 / 100)) FONT_SIZE"

text \<open>
  \<^verbatim>\<open>word.length * FONT_SIZE * factor\<close>, evaluated from the left. The length of a
  string is below \<open>2 ^ 53\<close> and hence a number as it stands.
\<close>

definition estimateWordWidth :: "jsstring \<Rightarrow> bool \<Rightarrow> number" where
  "estimateWordWidth word b =
    (let factor = (if b then CHAR_WIDTH_BOLD else CHAR_WIDTH_NORMAL)
     in times64 (times64 (of_nat (length word)) FONT_SIZE) factor)"

abbreviation wordWidth :: "styledWord \<Rightarrow> number" where
  "wordWidth w \<equiv> estimateWordWidth (word_text w) (isBold w)"

text \<open>
  The object \<^verbatim>\<open>{ text: w, isBold }\<close> the first loop builds for the word at index
  \<open>i\<close>, with \<^verbatim>\<open>isBold = i >= boldStart && i < boldStart + boldLength\<close>.
\<close>

fun styleFrom :: "nat \<Rightarrow> int \<Rightarrow> int \<Rightarrow> jsstring list \<Rightarrow> styledWord list" where
  "styleFrom i boldStart boldLength [] = []"
| "styleFrom i boldStart boldLength (w # ws) =
     \<lparr>word_text = w, isBold = (boldStart \<le> int i \<and> int i < boldStart + boldLength)\<rparr>
       # styleFrom (Suc i) boldStart boldLength ws"

text \<open>
  The greedy loop over the words, with its state \<open>(built, line, width)\<close>. The test is
  \<^verbatim>\<open>width + extraSpace + wWidth <= maxWidth\<close>, that is
  \<^verbatim>\<open>(width + extraSpace) + wWidth\<close>, while the update \<^verbatim>\<open>width += extraSpace + wWidth\<close>
  is \<^verbatim>\<open>width + (extraSpace + wWidth)\<close>. The \<^verbatim>\<open>break\<close> leaves the loop with the word
  that did not fit, and all words after it, unplaced.
\<close>

fun pack ::
  "number \<Rightarrow> nat \<Rightarrow> styledWord list list \<Rightarrow> styledWord list \<Rightarrow> number \<Rightarrow> styledWord list
    \<Rightarrow> styledWord list list \<times> styledWord list" where
  "pack maxWidth maxLines built line width [] = (built, line)"
| "pack maxWidth maxLines built line width (w # ws) =
    (let wWidth = wordWidth w;
         extraSpace = (if length line > 0 then SPACE_WIDTH else 0)
     in if plus64 (plus64 width extraSpace) wWidth \<le> maxWidth \<or> length line = 0
        then pack maxWidth maxLines built (line @ [w]) (plus64 width (plus64 extraSpace wWidth)) ws
        else let built' = built @ [line]
             in if length built' \<ge> maxLines then (built', line)
                else pack maxWidth maxLines built' [w] wWidth ws)"

text \<open>\<^verbatim>\<open>if (line.length && built.length < maxLines) built.push(line)\<close>\<close>

definition pushLast :: "nat \<Rightarrow> styledWord list list \<times> styledWord list \<Rightarrow> styledWord list list" where
  "pushLast maxLines st =
    (case st of (built, line) \<Rightarrow>
       if length line \<noteq> 0 \<and> length built < maxLines then built @ [line] else built)"

text \<open>
  \<^verbatim>\<open>lineWidth\<close>: \<^verbatim>\<open>total += ww + (i > 0 ? SPACE_WIDTH : 0)\<close>, from \<^verbatim>\<open>total = 0\<close>.
\<close>

fun lineWidth_loop :: "nat \<Rightarrow> styledWord list \<Rightarrow> number \<Rightarrow> number" where
  "lineWidth_loop i [] tot = tot"
| "lineWidth_loop i (x # xs) tot =
     lineWidth_loop (Suc i) xs
       (plus64 tot (plus64 (wordWidth x) (if i > 0 then SPACE_WIDTH else 0)))"

definition lineWidth :: "styledWord list \<Rightarrow> number" where
  "lineWidth arr = lineWidth_loop 0 arr 0"

text \<open>
  One iteration of the widow loop at index \<open>i\<close>. \<^verbatim>\<open>prev.pop()\<close> followed by
  \<^verbatim>\<open>prev.push(moved)\<close> restores \<open>prev\<close>, and so does \<^verbatim>\<open>next.shift()\<close> followed
  by \<^verbatim>\<open>next.unshift(movedN)\<close>; \<open>movedN\<close> is an object and hence truthy.
\<close>

definition widow_step :: "number \<Rightarrow> nat \<Rightarrow> styledWord list list \<Rightarrow> styledWord list list" where
  "widow_step maxWidth i built =
    (if length (built ! i) = 1 then
       (if i > 0 \<and> length (built ! (i - 1)) > 2 then
          (let prev = built ! (i - 1); moved = last prev
           in if plus64 (plus64 (lineWidth (built ! i)) SPACE_WIDTH) (wordWidth moved) \<le> maxWidth
              then built[i - 1 := butlast prev, i := moved # built ! i]
              else built)
        else if i + 1 < length built \<and> length (built ! (i + 1)) > 1 then
          (let next = built ! (i + 1); movedN = hd next
           in if plus64 (plus64 (lineWidth (built ! i))
                           (if length (built ! i) \<noteq> 0 then SPACE_WIDTH else 0))
                    (wordWidth movedN) \<le> maxWidth
              then built[i + 1 := tl next, i := built ! i @ [movedN]]
              else built)
        else built)
     else built)"

text \<open>
  The widow loop \<^verbatim>\<open>for (let i = 0; i < built.length; i++)\<close>. No iteration adds or
  removes a line (lemma \<open>widow_step_props\<close>), so the bound is the length at entry.
\<close>

definition widow_pass :: "number \<Rightarrow> styledWord list list \<Rightarrow> styledWord list list" where
  "widow_pass maxWidth built = fold (widow_step maxWidth) [0..<length built] built"

text \<open>
  The inner \<^verbatim>\<open>while\<close> of the width clamp at line \<open>i\<close>: the last word is popped; it
  is put at the head of the next line if there is one and it fits there, and is not put
  back anywhere otherwise.
\<close>

function clamp_line :: "number \<Rightarrow> nat \<Rightarrow> styledWord list list \<Rightarrow> styledWord list list" where
  "clamp_line maxWidth i built =
    (if i < length built \<and> lineWidth (built ! i) > maxWidth \<and> length (built ! i) > 1 then
       (let spill = last (built ! i);
            built1 = built[i := butlast (built ! i)]
        in clamp_line maxWidth i
             (if i + 1 < length built1 then
                (let target = built1 ! (i + 1)
                 in if plus64 (plus64 (lineWidth target)
                                 (if length target \<noteq> 0 then SPACE_WIDTH else 0))
                          (wordWidth spill) \<le> maxWidth
                    then built1[i + 1 := spill # target]
                    else built1)
              else built1))
     else built)"
  by pat_completeness auto
termination
  by (relation "measure (\<lambda>(maxWidth, i, built). length (built ! i))") (auto simp: Let_def)

declare clamp_line.simps [simp del]

text \<open>
  The clamp loop \<^verbatim>\<open>for (let i = 0; i < built.length; i++)\<close>; the clamp adds and
  removes no line either (lemma \<open>clamp_line_props\<close>).
\<close>

definition clamp_pass :: "number \<Rightarrow> styledWord list list \<Rightarrow> styledWord list list" where
  "clamp_pass maxWidth built = fold (clamp_line maxWidth) [0..<length built] built"

text \<open>\<^verbatim>\<open>if (built.length > maxLines) built.length = maxLines\<close> keeps the first \<open>maxLines\<close> lines.\<close>

definition wrapWordsToWidth ::
  "jsstring list \<Rightarrow> int \<Rightarrow> int \<Rightarrow> number \<Rightarrow> nat \<Rightarrow> styledWord list list" where
  "wrapWordsToWidth wordsArr boldStart boldLength maxWidth maxLines =
    (let built = pushLast maxLines
                   (pack maxWidth maxLines [] [] 0 (styleFrom 0 boldStart boldLength wordsArr));
         built = widow_pass maxWidth built;
         built = clamp_pass maxWidth built
     in if length built > maxLines then take maxLines built else built)"

text \<open>
  The state of a line the clamp leaves behind: within the budget, or not longer than one
  word.
\<close>

definition clamped :: "number \<Rightarrow> styledWord list \<Rightarrow> bool" where
  "clamped maxWidth l = (lineWidth l \<le> maxWidth \<or> length l \<le> 1)"

section \<open>Emphasis selection (\<^verbatim>\<open>findKeywords\<close> and the index override)\<close>






















section \<open>Invariants of the shortener proofs\<close>

text \<open>
  \<open>spacedFrom\<close> says that every white-space code unit of a string is a single space that
  follows a code unit which is no space; a \<open>tidy\<close> string moreover neither starts nor
  ends with a space. The tokens of a tidy string are non-empty and free of white space.
\<close>

fun spacedFrom :: "bool \<Rightarrow> jsstring \<Rightarrow> bool" where
  "spacedFrom prevSpace [] = True"
| "spacedFrom prevSpace (c # cs) =
    (if isSpace c then c = 32 \<and> \<not> prevSpace \<and> spacedFrom True cs else spacedFrom False cs)"

definition tidy :: "jsstring \<Rightarrow> bool" where
  "tidy s = (spacedFrom True s \<and> (s \<noteq> [] \<longrightarrow> last s \<noteq> 32))"

definition cleanTokens :: "jsstring list \<Rightarrow> bool" where
  "cleanTokens ws = (\<forall>w \<in> set ws. w \<noteq> [] \<and> (\<forall>c \<in> set w. \<not> isSpace c))"

section \<open>Properties of the colour table\<close>

lemma barColor_table:
  "barColor (Some (js ''pol'' @ [0xED] @ js ''cia'')) = JString (js ''#dc2626'')"
  "barColor (Some (js ''pol'' @ [0xED] @ js ''tica'')) = JString (js ''#2563eb'')"
  "barColor (Some (js ''esporte'')) = JString (js ''#16a34a'')"
  "barColor (Some (js ''entretenimento'')) = JString (js ''#9333ea'')"
  "barColor (Some (js ''desconhecida'')) = JString (js ''#ea580c'')"
  "barColor None = JString (js ''#ea580c'')"
  by (simp_all add: barColor_def getProp_def editorialColors_def objectPrototypeKeys_def
      js_def)

lemma barColor_default:
  assumes "c \<notin> fst ` set editorialColors" and "c \<notin> set objectPrototypeKeys"
  shows "barColor (Some c) = JString (js ''#ea580c'')"
proof -
  have own: "map_of editorialColors c = None"
    using assms(1) by (simp add: map_of_eq_None_iff)
  have geral: "map_of editorialColors (js ''geral'') = Some (js ''#ea580c'')"
    by (simp add: editorialColors_def js_def)
  have dflt: "getProp editorialColors (js ''default'') = JString (js ''#ea580c'')"
    by (simp add: getProp_def editorialColors_def js_def)
  show ?thesis
  proof (cases "c = []")
    case True
    then show ?thesis
      by (simp add: barColor_def getProp_def geral) (simp add: js_def)
  next
    case False
    then show ?thesis
      using own assms(2) dflt by (simp add: barColor_def getProp_def)
  qed
qed

text \<open>
  C8. The claim maps every category other than the four named ones to the default orange.
  The lookup does so for every key that is not a member of \<^verbatim>\<open>Object.prototype\<close>
  (lemmas \<open>barColor_table\<close>, \<open>barColor_default\<close>); for the category
  \<^verbatim>\<open>"constructor"\<close> the read \<^verbatim>\<open>editorialColors["constructor"]\<close> yields the inherited
  member, which is truthy, so the \<^verbatim>\<open>||\<close> fallback is not taken and the bar colour is
  not the default orange.
\<close>

theorem barColor_constructor_not_default:
  "barColor (Some (js ''constructor'')) = JInherited (js ''constructor'') \<and>
   barColor (Some (js ''constructor'')) \<noteq> JString (js ''#ea580c'')"
  by (simp add: barColor_def getProp_def editorialColors_def objectPrototypeKeys_def js_def)

section \<open>Properties of the number model\<close>

lemma bitlen_powi:
  assumes "0 < (p::int)"
  shows "(2::rat) powi (bitlen p - 1) \<le> of_int p \<and> of_int p < (2::rat) powi bitlen p"
proof -
  have b: "2 ^ nat (bitlen p - 1) \<le> p \<and> p < 2 ^ nat (bitlen p)"
    using bitlen_bounds [OF assms] .
  have pos: "0 < bitlen p" using assms bitlen_eq_zero_iff [of p] bitlen_nonneg [of p] by linarith
  have 1: "(2::rat) powi (bitlen p - 1) = 2 ^ nat (bitlen p - 1)"
    using pos by (simp add: power_int_def)
  have 2: "(2::rat) powi bitlen p = 2 ^ nat (bitlen p)"
    using pos by (simp add: power_int_def)
  have "(of_int (2 ^ nat (bitlen p - 1)) :: rat) \<le> of_int p" using b by (simp only: of_int_le_iff)
  moreover have "(of_int p :: rat) < of_int (2 ^ nat (bitlen p))" using b by (simp only: of_int_less_iff)
  ultimately show ?thesis unfolding 1 2 by simp
qed

lemma binade_bounds:
  assumes "0 < x"
  shows "2 powi binade x \<le> x \<and> x < 2 powi (binade x + 1)"
proof -
  obtain p q where pq: "quotient_of x = (p, q)" by (cases "quotient_of x")
  have q: "0 < q" using quotient_of_denom_pos [OF pq] .
  have x: "x = of_int p / of_int q" using quotient_of_div [OF pq] .
  have p: "0 < p" using assms q unfolding x by (simp add: zero_less_divide_iff)
  define d where "d = bitlen p - bitlen q"
  note bp = bitlen_powi [OF p] and bq = bitlen_powi [OF q]
  have qpos: "(0::rat) < of_int q" using q by simp
  have up: "x < 2 powi (d + 1)"
  proof -
    have "x < 2 powi bitlen p / of_int q"
      unfolding x using bp qpos by (simp add: divide_strict_right_mono)
    also have "\<dots> \<le> 2 powi bitlen p / 2 powi (bitlen q - 1)"
      using bq qpos by (intro divide_left_mono) (simp_all add: zero_less_power_int mult_pos_pos)
    also have "\<dots> = 2 powi (d + 1)"
      unfolding d_def by (simp add: power_int_diff [symmetric] algebra_simps)
    finally show ?thesis .
  qed
  have lo: "2 powi (d - 1) \<le> x"
  proof -
    have "(2::rat) powi (d - 1) = 2 powi (bitlen p - 1) / 2 powi bitlen q"
      unfolding d_def by (simp add: power_int_diff [symmetric] algebra_simps)
    also have "\<dots> \<le> of_int p / 2 powi bitlen q"
      using bp by (intro divide_right_mono) simp_all
    also have "\<dots> \<le> of_int p / of_int q"
      using bq p qpos by (intro divide_left_mono) (simp_all add: zero_less_power_int mult_pos_pos)
    finally show ?thesis unfolding x .
  qed
  have b: "binade x = (if 2 powi d \<le> x then d else d - 1)"
    by (simp add: binade_def pq d_def Let_def)
  show ?thesis
  proof (cases "2 powi d \<le> x")
    case True
    with b up show ?thesis by simp
  next
    case False
    with b lo show ?thesis by simp
  qed
qed

lemma binade_unique:
  assumes "2 powi L \<le> x" and "x < 2 powi (L + 1)"
  shows "binade x = L"
proof -
  have "(0::rat) < 2 powi L" by (simp add: zero_less_power_int)
  then have pos: "0 < x" using assms(1) by (rule less_le_trans)
  note b = binade_bounds [OF pos]
  have "(2::rat) powi L < 2 powi (binade x + 1)" using assms(1) b by simp
  then have 1: "L < binade x + 1"
    by (metis power_int_increasing linorder_not_less one_le_numeral)
  have "(2::rat) powi binade x < 2 powi (L + 1)" using assms(2) b by simp
  then have 2: "binade x < L + 1"
    by (metis power_int_increasing linorder_not_less one_le_numeral)
  from 1 2 show ?thesis by simp
qed

lemma roundHalfEven_of_int: "roundHalfEven (of_int m) = m"
  by (simp add: roundHalfEven_def)

lemma roundHalfEven_ge: "of_int n \<le> x \<Longrightarrow> n \<le> roundHalfEven x"
proof -
  assume "of_int n \<le> x"
  then have "n \<le> \<lfloor>x\<rfloor>" by (simp add: le_floor_iff)
  then show ?thesis by (simp add: roundHalfEven_def Let_def)
qed

lemma roundHalfEven_le: "x \<le> of_int n \<Longrightarrow> roundHalfEven x \<le> n"
proof -
  assume a: "x \<le> of_int n"
  have f: "\<lfloor>x\<rfloor> \<le> n" using a by (metis floor_mono floor_of_int)
  show ?thesis
  proof (cases "\<lfloor>x\<rfloor> = n")
    case True
    then have "x = of_int n" using a by (metis of_int_floor_le order_antisym)
    then show ?thesis by (simp add: roundHalfEven_of_int)
  next
    case False
    with f have "\<lfloor>x\<rfloor> + 1 \<le> n" by simp
    then show ?thesis using f by (auto simp: roundHalfEven_def Let_def)
  qed
qed

text \<open>A value with a significand of at most 53 bits is a number: rounding returns it.\<close>

lemma double_exact:
  assumes "\<bar>m\<bar> < 2 ^ 53"
  shows "double (of_int m * 2 powi e) = of_int m * 2 powi e"
proof (cases "m = 0")
  case True
  then show ?thesis by (simp add: double_def)
next
  case False
  define k where "k = bitlen \<bar>m\<bar>"
  define x :: rat where "x = of_int m * 2 powi e"
  have mpos: "0 < \<bar>m\<bar>" using False by simp
  note b = bitlen_powi [OF mpos, folded k_def]
  have k53: "k \<le> 53" unfolding k_def using assms by (simp add: bitlen_le_iff_power)
  have p2: "(0::rat) < 2 powi e" by (simp add: zero_less_power_int)
  have ax: "\<bar>x\<bar> = of_int \<bar>m\<bar> * 2 powi e"
    unfolding x_def using p2 by (simp add: abs_mult)
  have lo: "2 powi (k - 1 + e) \<le> \<bar>x\<bar>"
    unfolding ax using b p2 by (simp add: power_int_add mult_right_mono)
  have hi: "\<bar>x\<bar> < 2 powi (k - 1 + e + 1)"
    unfolding ax using b p2 by (simp add: power_int_add mult_strict_right_mono)
  have bin: "binade \<bar>x\<bar> = k - 1 + e" by (rule binade_unique [OF lo hi])
  have x0: "x \<noteq> 0" unfolding x_def using False p2 by simp
  define j where "j = nat (53 - k)"
  have j: "int j = 53 - k" unfolding j_def using k53 by simp
  have e': "binade \<bar>x\<bar> - 52 = e - int j" unfolding bin j by simp
  have sc: "x / 2 powi (e - int j) = of_int (m * 2 ^ j)"
    unfolding x_def by (simp add: power_int_diff)
  have "double x = of_int (m * 2 ^ j) * 2 powi (e - int j)"
    using x0 by (simp add: double_def Let_def e' sc roundHalfEven_of_int del: of_int_mult of_int_power)
  also have "\<dots> = x"
    unfolding x_def by (simp add: power_int_diff)
  finally show ?thesis unfolding x_def .
qed

lemma double_repr: "\<exists>m e. \<bar>m\<bar> < 2 ^ 53 \<and> double x = of_int m * 2 powi e"
proof (cases "x = 0")
  case True
  have "\<bar>0::int\<bar> < 2 ^ 53 \<and> double x = of_int 0 * 2 powi 0" using True by (simp add: double_def)
  then show ?thesis by blast
next
  case False
  define e where "e = binade \<bar>x\<bar> - 52"
  define s where "s = x / 2 powi e"
  define m where "m = roundHalfEven s"
  have r: "double x = of_int m * 2 powi e"
    using False by (simp add: double_def Let_def e_def s_def m_def)
  have apos: "0 < \<bar>x\<bar>" using False by simp
  note b = binade_bounds [OF apos]
  have p2: "(0::rat) < 2 powi e" by (simp add: zero_less_power_int)
  have as: "\<bar>s\<bar> = \<bar>x\<bar> / 2 powi e" unfolding s_def using p2 by (simp add: abs_divide)
  have be: "binade \<bar>x\<bar> = e + 52" by (simp add: e_def)
  have hi: "\<bar>s\<bar> < 2 ^ 53"
  proof -
    have "\<bar>x\<bar> < (2::rat) powi (e + 52 + 1)" using b be by simp
    then have "\<bar>x\<bar> < (2::rat) powi e * 2 ^ 53" by (simp add: power_int_add)
    then show ?thesis unfolding as using p2 by (simp add: divide_less_eq mult.commute)
  qed
  have mb: "\<bar>m\<bar> \<le> 2 ^ 53"
  proof (cases "0 \<le> s")
    case True
    then have "s \<le> of_int (2 ^ 53)" using hi by simp
    then have "m \<le> 2 ^ 53" unfolding m_def by (rule roundHalfEven_le)
    moreover have "of_int 0 \<le> s" using True by simp
    then have "0 \<le> m" unfolding m_def by (rule roundHalfEven_ge)
    ultimately show ?thesis by simp
  next
    case False
    then have "of_int (- (2 ^ 53)) \<le> s" using hi by simp
    then have "- (2 ^ 53) \<le> m" unfolding m_def by (rule roundHalfEven_ge)
    moreover have "s \<le> of_int 0" using False by simp
    then have "m \<le> 0" unfolding m_def by (rule roundHalfEven_le)
    ultimately show ?thesis by simp
  qed
  show ?thesis
  proof (cases "\<bar>m\<bar> = 2 ^ 53")
    case True
    then have mm: "m = 2 ^ 53 \<or> m = - (2 ^ 53)" by arith
    then have m2: "m = 2 * (m div 2)" by auto
    have "\<bar>m div 2\<bar> < 2 ^ 53" using mm by auto
    moreover have "double x = of_int (m div 2) * 2 powi (e + 1)"
      unfolding r by (subst m2) (simp add: power_int_add)
    ultimately show ?thesis by blast
  next
    case False
    with mb have "\<bar>m\<bar> < 2 ^ 53" by simp
    with r show ?thesis by blast
  qed
qed

lemma double_double: "double (double x) = double x"
proof -
  obtain m e where "\<bar>m\<bar> < 2 ^ 53" "double x = of_int m * 2 powi e"
    using double_repr [of x] by blast
  then show ?thesis using double_exact [of m e] by simp
qed

text \<open>The three width constants as binary fractions.\<close>

lemma width_constants:
  "CHAR_WIDTH_NORMAL = 5224175567749775 / 2 ^ 53"
  "CHAR_WIDTH_BOLD = 5584463537939415 / 2 ^ 53"
  "SPACE_WIDTH = 3422735716801577 / 2 ^ 47"
  by code_simp+


section \<open>Properties of the line wrapper\<close>

lemma estimateWordWidth_double: "double (estimateWordWidth t b) = estimateWordWidth t b"
  by (simp add: estimateWordWidth_def times64_def double_double Let_def)

lemma lineWidth_single: "lineWidth [w] = wordWidth w"
  by (simp add: lineWidth_def plus64_def double_double estimateWordWidth_double)

lemma pack_Cons_fit:
  "line = [] \<or> plus64 (plus64 width SPACE_WIDTH) (wordWidth w) \<le> maxWidth \<Longrightarrow>
   pack maxWidth maxLines built line width (w # ws) =
   pack maxWidth maxLines built (line @ [w])
     (plus64 width (plus64 (if line = [] then 0 else SPACE_WIDTH) (wordWidth w))) ws"
  by (auto simp: Let_def)

lemma pack_Cons_break:
  "line \<noteq> [] \<Longrightarrow> \<not> plus64 (plus64 width SPACE_WIDTH) (wordWidth w) \<le> maxWidth \<Longrightarrow>
   maxLines \<le> Suc (length built) \<Longrightarrow>
   pack maxWidth maxLines built line width (w # ws) = (built @ [line], line)"
  by (auto simp: Let_def)

lemma pack_Cons_newline:
  "line \<noteq> [] \<Longrightarrow> \<not> plus64 (plus64 width SPACE_WIDTH) (wordWidth w) \<le> maxWidth \<Longrightarrow>
   \<not> maxLines \<le> Suc (length built) \<Longrightarrow>
   pack maxWidth maxLines built line width (w # ws) =
   pack maxWidth maxLines (built @ [line]) [w] (wordWidth w) ws"
  by (auto simp: Let_def)

text \<open>The greedy loop builds no empty line.\<close>

lemma pack_nonempty:
  assumes "\<forall>l \<in> set built. l \<noteq> []"
  shows "\<forall>l \<in> set (pushLast maxLines (pack maxWidth maxLines built line width ws)). l \<noteq> []"
  using assms
proof (induction ws arbitrary: built line width)
  case Nil
  then show ?case by (auto simp: pushLast_def)
next
  case (Cons w ws)
  show ?case
  proof (cases "line = [] \<or> plus64 (plus64 width SPACE_WIDTH) (wordWidth w) \<le> maxWidth")
    case True
    show ?thesis
      unfolding pack_Cons_fit [OF True] by (rule Cons.IH [OF Cons.prems])
  next
    case False
    then have ne: "line \<noteq> []"
      and nofit: "\<not> plus64 (plus64 width SPACE_WIDTH) (wordWidth w) \<le> maxWidth"
      by auto
    have ok': "\<forall>l \<in> set (built @ [line]). l \<noteq> []"
      using Cons.prems ne by auto
    show ?thesis
    proof (cases "maxLines \<le> Suc (length built)")
      case True
      show ?thesis
        unfolding pack_Cons_break [OF ne nofit True] using ok' True by (simp add: pushLast_def)
    next
      case F2: False
      show ?thesis
        unfolding pack_Cons_newline [OF ne nofit F2] by (rule Cons.IH [OF ok'])
    qed
  qed
qed

text \<open>
  The lines of the greedy loop hold a prefix of the words, and all of them unless the
  line cap was reached.
\<close>

lemma pack_prefix:
  "prefix (concat (pushLast maxLines (pack maxWidth maxLines built line width ws)))
          (concat built @ line @ ws) \<and>
   (concat (pushLast maxLines (pack maxWidth maxLines built line width ws))
      \<noteq> concat built @ line @ ws
    \<longrightarrow> maxLines \<le> length (pushLast maxLines (pack maxWidth maxLines built line width ws)))"
proof (induction ws arbitrary: built line width)
  case Nil
  then show ?case by (auto simp: pushLast_def)
next
  case (Cons w ws)
  show ?case
  proof (cases "line = [] \<or> plus64 (plus64 width SPACE_WIDTH) (wordWidth w) \<le> maxWidth")
    case True
    show ?thesis
      unfolding pack_Cons_fit [OF True] using Cons.IH [of built "line @ [w]"] by simp
  next
    case False
    then have ne: "line \<noteq> []"
      and nofit: "\<not> plus64 (plus64 width SPACE_WIDTH) (wordWidth w) \<le> maxWidth"
      by auto
    show ?thesis
    proof (cases "maxLines \<le> Suc (length built)")
      case True
      show ?thesis
        unfolding pack_Cons_break [OF ne nofit True] using True by (simp add: pushLast_def)
    next
      case F2: False
      show ?thesis
        unfolding pack_Cons_newline [OF ne nofit F2]
        using Cons.IH [of "built @ [line]" "[w]" "wordWidth w"] by simp
    qed
  qed
qed

lemma concat_update2:
  assumes "Suc i < length B" and "a @ b = B ! i @ B ! Suc i"
  shows "concat (B[i := a, Suc i := b]) = concat B"
proof -
  have B: "B = take i B @ [B ! i, B ! Suc i] @ drop (Suc (Suc i)) B"
    using assms(1) by (metis Cons_nth_drop_Suc Suc_lessD append_Cons append_Nil id_take_nth_drop)
  have "B[i := a, Suc i := b] = take i B @ [a, b] @ drop (Suc (Suc i)) B"
    using assms(1)
    by (subst (1 2) B) (simp add: list_update_append nth_append)
  then have "concat (B[i := a, Suc i := b]) = concat (take i B) @ (a @ b) @ concat (drop (Suc (Suc i)) B)"
    by simp
  also have "\<dots> = concat (take i B @ [B ! i, B ! Suc i] @ drop (Suc (Suc i)) B)"
    by (simp add: assms(2))
  also have "\<dots> = concat B" using B by simp
  finally show ?thesis .
qed

lemma concat_update_subseq:
  assumes "i < length B" and "subseq a (B ! i)"
  shows "subseq (concat (B[i := a])) (concat B)"
proof -
  have B: "B = take i B @ [B ! i] @ drop (Suc i) B"
    using assms(1) by (simp add: id_take_nth_drop)
  have U: "B[i := a] = take i B @ [a] @ drop (Suc i) B"
    using assms(1) by (simp add: upd_conv_take_nth_drop)
  have "subseq (concat (take i B) @ a @ concat (drop (Suc i) B))
               (concat (take i B) @ B ! i @ concat (drop (Suc i) B))"
    by (intro list_emb_append_mono subseq_order.order_refl assms(2))
  also have "concat (take i B) @ B ! i @ concat (drop (Suc i) B)
             = concat (take i B @ [B ! i] @ drop (Suc i) B)" by simp
  also have "\<dots> = concat B" using B by simp
  finally show ?thesis unfolding U by simp
qed

lemma nonempty_update:
  "\<forall>l \<in> set B. l \<noteq> [] \<Longrightarrow> a \<noteq> [] \<Longrightarrow> \<forall>l \<in> set (B[i := a]). l \<noteq> []"
  using set_update_subset_insert [of B i a] by auto

text \<open>
  An iteration of the widow loop moves a word between neighbouring lines or does
  nothing: the words and their order stay, and no line becomes empty.
\<close>

lemma widow_step_props:
  assumes "i < length B" and ne: "\<forall>l \<in> set B. l \<noteq> []"
  shows "concat (widow_step m i B) = concat B \<and> length (widow_step m i B) = length B
         \<and> (\<forall>l \<in> set (widow_step m i B). l \<noteq> [])"
proof -
  have "(length (B ! i) = 1 \<and> i > 0 \<and> length (B ! (i - 1)) > 2 \<and>
          widow_step m i B = B[i - 1 := butlast (B ! (i - 1)), i := last (B ! (i - 1)) # B ! i])
      \<or> (length (B ! i) = 1 \<and> \<not> (i > 0 \<and> length (B ! (i - 1)) > 2) \<and>
          i + 1 < length B \<and> length (B ! (i + 1)) > 1 \<and>
          widow_step m i B = B[i + 1 := tl (B ! (i + 1)), i := B ! i @ [hd (B ! (i + 1))]])
      \<or> widow_step m i B = B"
    by (simp add: widow_step_def Let_def)
  then consider
    (prev) "length (B ! i) = 1" "i > 0" "length (B ! (i - 1)) > 2"
      "widow_step m i B = B[i - 1 := butlast (B ! (i - 1)), i := last (B ! (i - 1)) # B ! i]"
  | (nxt) "length (B ! i) = 1" "i + 1 < length B" "length (B ! (i + 1)) > 1"
      "widow_step m i B = B[i + 1 := tl (B ! (i + 1)), i := B ! i @ [hd (B ! (i + 1))]]"
  | (same) "widow_step m i B = B"
    by blast
  then show ?thesis
  proof cases
    case prev
    let ?p = "B ! (i - 1)"
    obtain k where k: "i = Suc k" using prev(2) by (cases i) auto
    have pne: "?p \<noteq> []" using prev(3) by auto
    have c: "concat (widow_step m i B) = concat B"
      unfolding prev(4) using assms(1) pne unfolding k
      by (simp add: concat_update2)
    have bl: "butlast ?p \<noteq> []"
      using prev(3) by (cases ?p rule: rev_cases) auto
    have s1: "\<forall>l \<in> set (B[i - 1 := butlast ?p]). l \<noteq> []"
      by (rule nonempty_update [OF ne bl])
    have "\<forall>l \<in> set (B[i - 1 := butlast ?p, i := last ?p # B ! i]). l \<noteq> []"
      by (rule nonempty_update [OF s1]) simp
    with c prev(4) show ?thesis by simp
  next
    case nxt
    let ?n = "B ! (i + 1)"
    have sw: "B[i + 1 := tl ?n, i := B ! i @ [hd ?n]] = B[i := B ! i @ [hd ?n], Suc i := tl ?n]"
      by (simp add: list_update_swap)
    have nne: "?n \<noteq> []" using nxt(3) by auto
    have c: "concat (widow_step m i B) = concat B"
      unfolding nxt(4) sw using nxt(2) nne by (simp add: concat_update2)
    have tl1: "tl ?n \<noteq> []"
      using nxt(3) by (cases ?n) auto
    have s1: "\<forall>l \<in> set (B[i + 1 := tl ?n]). l \<noteq> []"
      by (rule nonempty_update [OF ne tl1])
    have "\<forall>l \<in> set (B[i + 1 := tl ?n, i := B ! i @ [hd ?n]]). l \<noteq> []"
      by (rule nonempty_update [OF s1]) simp
    with c nxt(4) show ?thesis by simp
  next
    case same
    with assms show ?thesis by simp
  qed
qed

lemma widow_fold_props:
  assumes "\<forall>i \<in> set is. i < length B" and "\<forall>l \<in> set B. l \<noteq> []"
  shows "concat (fold (widow_step m) is B) = concat B
         \<and> length (fold (widow_step m) is B) = length B
         \<and> (\<forall>l \<in> set (fold (widow_step m) is B). l \<noteq> [])"
  using assms
proof (induction "is" arbitrary: B)
  case Nil
  then show ?case by simp
next
  case (Cons i "is")
  have s: "concat (widow_step m i B) = concat B" "length (widow_step m i B) = length B"
    "\<forall>l \<in> set (widow_step m i B). l \<noteq> []"
    using widow_step_props [of i B m] Cons.prems by auto
  have "\<forall>j \<in> set is. j < length (widow_step m i B)"
    using Cons.prems(1) s(2) by simp
  from Cons.IH [OF this s(3)] s show ?case by simp
qed

lemma widow_pass_props:
  "\<forall>l \<in> set B. l \<noteq> [] \<Longrightarrow>
   concat (widow_pass m B) = concat B \<and> length (widow_pass m B) = length B
   \<and> (\<forall>l \<in> set (widow_pass m B). l \<noteq> [])"
  unfolding widow_pass_def by (rule widow_fold_props) auto

text \<open>
  The clamp at line \<open>i\<close> pops words until the line is within the budget or has one word
  left. It changes no line before \<open>i\<close>, adds and removes no line and empties none; the
  words that remain are in their order.
\<close>

lemma clamp_line_props:
  assumes "i < length B" and "\<forall>l \<in> set B. l \<noteq> []"
  shows "length (clamp_line m i B) = length B
         \<and> (\<forall>l \<in> set (clamp_line m i B). l \<noteq> [])
         \<and> (\<forall>j < i. clamp_line m i B ! j = B ! j)
         \<and> clamped m (clamp_line m i B ! i)
         \<and> subseq (concat (clamp_line m i B)) (concat B)"
  using assms
proof (induction "length (B ! i)" arbitrary: B rule: less_induct)
  case less
  show ?case
  proof (cases "lineWidth (B ! i) > m \<and> length (B ! i) > 1")
    case False
    then have "clamp_line m i B = B" by (subst clamp_line.simps) auto
    with False less.prems show ?thesis by (auto simp: clamped_def)
  next
    case True
    let ?l = "B ! i"
    let ?B1 = "B[i := butlast ?l]"
    define B2 where "B2 =
      (if i + 1 < length ?B1 then
         (let target = ?B1 ! (i + 1)
          in if plus64 (plus64 (lineWidth target) (if length target \<noteq> 0 then SPACE_WIDTH else 0))
                  (wordWidth (last ?l)) \<le> m
             then ?B1[i + 1 := last ?l # target]
             else ?B1)
       else ?B1)"
    have step: "clamp_line m i B = clamp_line m i B2"
      using True less.prems(1) by (subst clamp_line.simps) (simp add: B2_def Let_def)
    have lne: "?l \<noteq> []" and bne: "butlast ?l \<noteq> []"
      using True by (cases ?l rule: rev_cases; auto)+
    have ne1: "\<forall>l \<in> set ?B1. l \<noteq> []"
      by (rule nonempty_update [OF less.prems(2) bne])
    have sub1: "subseq (concat ?B1) (concat B)"
      by (rule concat_update_subseq [OF less.prems(1)]) (metis sublist_butlast sublist_imp_subseq)
    have "(Suc i < length B \<and> B2 = B[i := butlast ?l, Suc i := last ?l # B ! Suc i])
          \<or> B2 = ?B1"
      unfolding B2_def by (simp add: Let_def)
    then consider (moved) "Suc i < length B"
        "B2 = B[i := butlast ?l, Suc i := last ?l # B ! Suc i]"
      | (dropped) "B2 = ?B1"
      by blast
    then have B2: "length B2 = length B \<and> (\<forall>l \<in> set B2. l \<noteq> [])
        \<and> (\<forall>j < i. B2 ! j = B ! j) \<and> B2 ! i = butlast ?l \<and> subseq (concat B2) (concat B)"
    proof cases
      case moved
      have "concat (B[i := butlast ?l, Suc i := last ?l # B ! Suc i]) = concat B"
        using moved(1) lne by (intro concat_update2) simp_all
      then have c: "concat B2 = concat B" unfolding moved(2) by simp
      have n: "\<forall>l \<in> set B2. l \<noteq> []"
        unfolding moved(2) by (rule nonempty_update [OF ne1]) simp
      show ?thesis
        using c n less.prems(1) unfolding moved(2) by simp
    next
      case dropped
      show ?thesis
        unfolding dropped using ne1 sub1 less.prems(1) by simp
    qed
    have sm: "length (B2 ! i) < length (B ! i)" using B2 lne by simp
    have i2: "i < length B2" using B2 less.prems(1) by simp
    have IH: "length (clamp_line m i B2) = length B2
         \<and> (\<forall>l \<in> set (clamp_line m i B2). l \<noteq> [])
         \<and> (\<forall>j < i. clamp_line m i B2 ! j = B2 ! j)
         \<and> clamped m (clamp_line m i B2 ! i)
         \<and> subseq (concat (clamp_line m i B2)) (concat B2)"
      using less.hyps [OF sm i2] B2 by blast
    have "subseq (concat (clamp_line m i B2)) (concat B)"
      using IH B2 subseq_order.order_trans by blast
    with IH B2 show ?thesis unfolding step by simp
  qed
qed

lemma clamp_fold_props:
  assumes "n \<le> length B" and "\<forall>l \<in> set B. l \<noteq> []"
  shows "length (fold (clamp_line m) [0..<n] B) = length B
         \<and> (\<forall>l \<in> set (fold (clamp_line m) [0..<n] B). l \<noteq> [])
         \<and> (\<forall>j < n. clamped m (fold (clamp_line m) [0..<n] B ! j))
         \<and> subseq (concat (fold (clamp_line m) [0..<n] B)) (concat B)"
  using assms(1)
proof (induction n)
  case 0
  with assms(2) show ?case by simp
next
  case (Suc n)
  let ?C = "fold (clamp_line m) [0..<n] B"
  have IH: "length ?C = length B" "\<forall>l \<in> set ?C. l \<noteq> []"
    "\<forall>j < n. clamped m (?C ! j)" "subseq (concat ?C) (concat B)"
    using Suc by simp_all
  have n: "n < length ?C" using Suc.prems IH(1) by simp
  note c = clamp_line_props [OF n IH(2), of m]
  have f: "fold (clamp_line m) [0..<Suc n] B = clamp_line m n ?C" by simp
  have cl: "\<forall>j < Suc n. clamped m (clamp_line m n ?C ! j)"
  proof (intro allI impI)
    fix j assume "j < Suc n"
    then consider "j < n" | "j = n" by linarith
    then show "clamped m (clamp_line m n ?C ! j)"
      using c IH(3) by cases auto
  qed
  have "subseq (concat (clamp_line m n ?C)) (concat B)"
    using c IH(4) subseq_order.order_trans by blast
  with c cl IH(1) show ?case unfolding f by simp
qed

lemma clamp_pass_props:
  assumes "\<forall>l \<in> set B. l \<noteq> []"
  shows "length (clamp_pass m B) = length B
         \<and> (\<forall>l \<in> set (clamp_pass m B). l \<noteq> [] \<and> clamped m l)
         \<and> subseq (concat (clamp_pass m B)) (concat B)"
proof -
  note p = clamp_fold_props [OF order_refl assms, of m, folded clamp_pass_def]
  have "\<forall>l \<in> set (clamp_pass m B). clamped m l"
    using p by (auto simp: in_set_conv_nth)
  with p show ?thesis by simp
qed

lemma styleFrom_text: "map word_text (styleFrom i bs bl ws) = ws"
  by (induction ws arbitrary: i) simp_all

lemma wrap_built_props:
  assumes sw: "sw = styleFrom 0 boldStart boldLength wordsArr"
    and B: "B = clamp_pass maxWidth (widow_pass maxWidth
                  (pushLast maxLines (pack maxWidth maxLines [] [] 0 sw)))"
  shows "(\<forall>l \<in> set B. l \<noteq> [] \<and> clamped maxWidth l) \<and> subseq (concat B) sw"
proof -
  let ?G = "pushLast maxLines (pack maxWidth maxLines [] [] 0 sw)"
  have ne: "\<forall>l \<in> set ?G. l \<noteq> []"
    by (rule pack_nonempty) simp
  have pre: "prefix (concat ?G) sw"
    using pack_prefix [of maxLines maxWidth "[]" "[]" 0 sw] by simp
  have w: "concat (widow_pass maxWidth ?G) = concat ?G"
    "\<forall>l \<in> set (widow_pass maxWidth ?G). l \<noteq> []"
    using widow_pass_props [OF ne] by simp_all
  note c = clamp_pass_props [OF w(2), of maxWidth, folded B]
  have "subseq (concat B) (concat ?G)" using c w(1) by simp
  then have "subseq (concat B) sw"
    using prefix_imp_subseq [OF pre] subseq_order.order_trans by blast
  with c show ?thesis by simp
qed

text \<open>
  The part of C1 that holds for every input: at most \<open>maxLines\<close> lines, whose words are
  a subsequence of the input words, in the input order.
\<close>

lemma wrapWordsToWidth_subseq:
  "length (wrapWordsToWidth wordsArr boldStart boldLength maxWidth maxLines) \<le> maxLines \<and>
   subseq (map word_text (concat (wrapWordsToWidth wordsArr boldStart boldLength maxWidth maxLines)))
     wordsArr"
proof -
  define sw where "sw = styleFrom 0 boldStart boldLength wordsArr"
  define B where "B = clamp_pass maxWidth (widow_pass maxWidth
                        (pushLast maxLines (pack maxWidth maxLines [] [] 0 sw)))"
  define R where "R = wrapWordsToWidth wordsArr boldStart boldLength maxWidth maxLines"
  have R: "R = take maxLines B"
    by (simp add: R_def wrapWordsToWidth_def B_def sw_def Let_def)
  have "prefix (concat R) (concat B)"
    unfolding R by (metis append_take_drop_id concat_append prefixI)
  then have "subseq (concat R) sw"
    using wrap_built_props [OF sw_def B_def] prefix_imp_subseq subseq_order.order_trans by blast
  then have "subseq (map word_text (concat R)) (map word_text sw)"
    by (rule subseq_map)
  then show ?thesis
    unfolding R_def [symmetric] by (simp add: sw_def styleFrom_text R)
qed


text \<open>
  The test of the greedy loop and \<^verbatim>\<open>lineWidth\<close> add the same three numbers in a
  different order. For the bold words \<^verbatim>\<open>Rio\<close> and \<^verbatim>\<open>Jaguaribara\<close> the test computes
  684 and \<^verbatim>\<open>lineWidth\<close> computes the next number above 684.
\<close>

lemma pack_test_and_lineWidth_differ:
  "plus64 (plus64 (estimateWordWidth (js ''Rio'') True) SPACE_WIDTH)
          (estimateWordWidth (js ''Jaguaribara'') True) = 684"
  "lineWidth [\<lparr>word_text = js ''Rio'', isBold = True\<rparr>,
              \<lparr>word_text = js ''Jaguaribara'', isBold = True\<rparr>] = 684 + 1 / 2 ^ 43"
  by code_simp+

lemma wrapWordsToWidth_Rio:
  "wrapWordsToWidth [js ''Rio'', js ''Jaguaribara'', js ''hoje''] 0 2 684 3
     = [[\<lparr>word_text = js ''Rio'', isBold = True\<rparr>], [\<lparr>word_text = js ''hoje'', isBold = False\<rparr>]]"
  by code_simp


text \<open>
  C9. Every line \<open>wrapWordsToWidth\<close> returns has an estimated width of at most the
  budget, except a line that consists of a single word which alone is wider than the
  budget. The bound is the work of the width clamp: it pops words from a line until the
  line is within the budget or has one word left.
\<close>

theorem wrapWordsToWidth_width:
  "\<forall>line \<in> set (wrapWordsToWidth wordsArr boldStart boldLength maxWidth maxLines).
     lineWidth line \<le> maxWidth \<or>
     (\<exists>w. line = [w] \<and> maxWidth < estimateWordWidth (word_text w) (isBold w))"
proof
  fix line
  assume "line \<in> set (wrapWordsToWidth wordsArr boldStart boldLength maxWidth maxLines)"
  then have "line \<in> set (clamp_pass maxWidth (widow_pass maxWidth
      (pushLast maxLines (pack maxWidth maxLines [] [] 0 (styleFrom 0 boldStart boldLength wordsArr)))))"
    by (auto simp: wrapWordsToWidth_def Let_def dest: in_set_takeD split: if_splits)
  then have ne: "line \<noteq> []" and fit: "clamped maxWidth line"
    using wrap_built_props [OF refl refl, of maxWidth maxLines boldStart boldLength wordsArr]
    by auto
  show "lineWidth line \<le> maxWidth \<or>
     (\<exists>w. line = [w] \<and> maxWidth < estimateWordWidth (word_text w) (isBold w))"
  proof (cases "lineWidth line \<le> maxWidth")
    case True
    then show ?thesis by simp
  next
    case False
    with fit have "length line \<le> 1" by (simp add: clamped_def)
    with ne obtain w where w: "line = [w]" by (cases line) auto
    with False show ?thesis by (simp add: lineWidth_single)
  qed
qed

theorem wrapWordsToWidth_width_witness:
  "hd (wrapWordsToWidth [js ''Rio'', js ''Jaguaribara'', js ''hoje''] 0 2 684 3)
     \<in> set (wrapWordsToWidth [js ''Rio'', js ''Jaguaribara'', js ''hoje''] 0 2 684 3)
   \<and> lineWidth (hd (wrapWordsToWidth [js ''Rio'', js ''Jaguaribara'', js ''hoje''] 0 2 684 3))
       \<le> 684
   \<and> last (wrapWordsToWidth [js ''infraestrutura'', js ''hoje''] 0 0 500 3)
     \<in> set (wrapWordsToWidth [js ''infraestrutura'', js ''hoje''] 0 0 500 3)
   \<and> \<not> lineWidth (hd (wrapWordsToWidth [js ''infraestrutura'', js ''hoje''] 0 0 500 3)) \<le> 500
   \<and> (\<exists>w. hd (wrapWordsToWidth [js ''infraestrutura'', js ''hoje''] 0 0 500 3) = [w]
          \<and> 500 < estimateWordWidth (word_text w) (isBold w))"
proof -
  let ?A = "wrapWordsToWidth [js ''Rio'', js ''Jaguaribara'', js ''hoje''] 0 2 684 3"
  let ?B = "wrapWordsToWidth [js ''infraestrutura'', js ''hoje''] 0 0 500 3"
  have A: "?A = [[\<lparr>word_text = js ''Rio'', isBold = True\<rparr>], [\<lparr>word_text = js ''hoje'', isBold = False\<rparr>]]"
    by (rule wrapWordsToWidth_Rio)
  have B: "?B = [[\<lparr>word_text = js ''infraestrutura'', isBold = False\<rparr>],
                 [\<lparr>word_text = js ''hoje'', isBold = False\<rparr>]]"
    by code_simp
  have mA: "hd ?A \<in> set ?A" and mB: "hd ?B \<in> set ?B" and lB: "last ?B \<in> set ?B"
    unfolding A B by simp_all
  have nA: "\<not> 684 < estimateWordWidth (js ''Rio'') True" by code_simp
  have nB: "\<not> lineWidth (hd ?B) \<le> 500" unfolding B by code_simp
  from wrapWordsToWidth_width [rule_format, OF mA] nA
  have 1: "lineWidth (hd ?A) \<le> 684" unfolding A by auto
  from wrapWordsToWidth_width [rule_format, OF mB] nB
  have 2: "\<exists>w. hd ?B = [w] \<and> 500 < estimateWordWidth (word_text w) (isBold w)" by blast
  from 1 2 mA lB nB show ?thesis by blast
qed

section \<open>Properties of the emphasis selection\<close>















section \<open>Properties of the headline shortener\<close>

lemma isSpace_32 [simp]: "isSpace 32"
  by (simp add: isSpace_def)

subsection \<open>Lengths\<close>

lemma length_removeEllipsis: "length (removeEllipsis s) \<le> length s"
  by (induction s rule: removeEllipsis.induct) (auto simp: le_SucI)

lemma length_collapseFrom: "length (collapseFrom b s) \<le> length s"
  by (induction s arbitrary: b) (auto simp: le_SucI)

lemma length_trimEnd: "length (trimEnd s) \<le> length s"
  using length_dropWhile_le [of isSpace "rev s"] by (simp add: trimEnd_def)

lemma length_trim: "length (trim s) \<le> length s"
  using length_trimEnd [of "dropWhile isSpace s"] length_dropWhile_le [of isSpace s]
  by (simp add: trim_def)

lemma length_normalize1: "length (normalize1 text) \<le> length text"
  unfolding normalize1_def collapseWs_def
  by (meson length_trim length_collapseFrom length_removeEllipsis order_trans)

lemma length_beforeFirst: "length (beforeFirst sep s) \<le> length s"
  by (induction s) auto

lemma length_cutAtSplitters: "length (cutAtSplitters ss m t) \<le> length t"
proof (induction ss)
  case Nil
  then show ?case by simp
next
  case (Cons s ss)
  have "length (trim (beforeFirst s t)) \<le> length t"
    using length_trim [of "beforeFirst s t"] length_beforeFirst [of s t] by simp
  with Cons show ?case by (simp add: Let_def)
qed

lemma removalRounds_fits: "length t \<le> m \<Longrightarrow> removalRounds rxs m t = t"
  by (cases rxs) simp_all

subsection \<open>trimEnd, trim\<close>

lemma trimEnd_Nil [simp]: "trimEnd [] = []"
  by (simp add: trimEnd_def)

lemma trim_Nil [simp]: "trim [] = []"
  by (simp add: trim_def)

lemma trimEnd_prefix: "prefix (trimEnd s) s"
proof -
  have "rev s = takeWhile isSpace (rev s) @ dropWhile isSpace (rev s)" by simp
  then have "s = rev (dropWhile isSpace (rev s)) @ rev (takeWhile isSpace (rev s))"
    by (metis rev_append rev_rev_ident)
  then show ?thesis unfolding trimEnd_def by (metis prefixI)
qed

lemma trimEnd_id: "s = [] \<or> \<not> isSpace (last s) \<Longrightarrow> trimEnd s = s"
  by (cases s rule: rev_cases) (auto simp: trimEnd_def)

lemma trimEnd_last: "trimEnd s \<noteq> [] \<Longrightarrow> \<not> isSpace (last (trimEnd s))"
proof -
  assume ne: "trimEnd s \<noteq> []"
  then have "dropWhile isSpace (rev s) \<noteq> []" by (simp add: trimEnd_def)
  then have "\<not> isSpace (hd (dropWhile isSpace (rev s)))" by (rule hd_dropWhile)
  then show ?thesis using ne by (simp add: trimEnd_def last_rev)
qed

lemma set_trimEnd: "set (trimEnd s) \<subseteq> set s"
  using set_dropWhileD [of _ isSpace "rev s"] by (auto simp: trimEnd_def)

lemma set_trim: "set (trim s) \<subseteq> set s"
  using set_trimEnd [of "dropWhile isSpace s"] set_dropWhileD [of _ isSpace s]
  by (auto simp: trim_def)

lemma trim_id: "s = [] \<or> (\<not> isSpace (hd s) \<and> \<not> isSpace (last s)) \<Longrightarrow> trim s = s"
  by (cases s) (auto simp: trim_def trimEnd_id)

subsection \<open>Spacing\<close>

lemma spacedFrom_weaken: "spacedFrom True s \<Longrightarrow> spacedFrom b s"
  by (cases s) auto

lemma spacedFrom_collapseFrom: "spacedFrom b (collapseFrom b s)"
  by (induction s arbitrary: b) auto

lemma collapseFrom_id: "spacedFrom b s \<Longrightarrow> collapseFrom b s = s"
  by (induction s arbitrary: b) (auto split: if_splits)

lemma spacedFrom_append: "spacedFrom b (xs @ ys) \<Longrightarrow> spacedFrom b xs"
  by (induction xs arbitrary: b) (auto split: if_splits)

lemma spacedFrom_prefix: "prefix xs s \<Longrightarrow> spacedFrom b s \<Longrightarrow> spacedFrom b xs"
  by (auto simp: prefix_def dest: spacedFrom_append)

lemma spacedFrom_dropWhile: "spacedFrom b s \<Longrightarrow> spacedFrom True (dropWhile isSpace s)"
  by (induction s arbitrary: b) (auto split: if_splits)

lemma spacedFrom_space: "spacedFrom b s \<Longrightarrow> c \<in> set s \<Longrightarrow> isSpace c \<Longrightarrow> c = 32"
  by (induction s arbitrary: b) (auto split: if_splits)

lemma spacedFrom_hd: "spacedFrom True s \<Longrightarrow> s \<noteq> [] \<Longrightarrow> \<not> isSpace (hd s)"
  by (cases s) (auto split: if_splits)

lemma tidy_Nil [simp]: "tidy []"
  by (simp add: tidy_def)

lemma tidy_trim: "spacedFrom b s \<Longrightarrow> tidy (trim s)"
proof -
  assume sp: "spacedFrom b s"
  have a: "spacedFrom True (trim s)"
    unfolding trim_def
    by (rule spacedFrom_prefix [OF trimEnd_prefix spacedFrom_dropWhile [OF sp]])
  have "trim s \<noteq> [] \<longrightarrow> \<not> isSpace (last (trim s))"
    unfolding trim_def using trimEnd_last by blast
  then have "trim s \<noteq> [] \<longrightarrow> last (trim s) \<noteq> 32" by auto
  with a show ?thesis by (simp add: tidy_def)
qed

lemma tidy_ends: "tidy s \<Longrightarrow> s \<noteq> [] \<Longrightarrow> \<not> isSpace (hd s) \<and> \<not> isSpace (last s)"
  using spacedFrom_space [of True s "last s"] spacedFrom_hd [of s]
  by (auto simp: tidy_def)

lemma trim_tidy: "tidy s \<Longrightarrow> trim s = s"
  using tidy_ends [of s] by (intro trim_id) auto

lemma collapseWs_tidy: "tidy s \<Longrightarrow> collapseWs s = s"
  using collapseFrom_id [OF spacedFrom_weaken [of s False]] by (simp add: collapseWs_def tidy_def)

lemma tidy_trim_collapseWs: "tidy (trim (collapseWs s))"
  unfolding collapseWs_def by (rule tidy_trim [OF spacedFrom_collapseFrom])

lemma tidy_normalize1: "tidy (normalize1 text)"
  unfolding normalize1_def by (rule tidy_trim_collapseWs)


subsection \<open>Tokens\<close>

lemma splitSpace_not_Nil [simp]: "splitSpace s \<noteq> []"
  by (induction s) (auto split: list.splits)

lemma joinSpace_Cons: "ws \<noteq> [] \<Longrightarrow> joinSpace (w # ws) = w @ 32 # joinSpace ws"
  by (cases ws) simp_all

lemma joinSpace_splitSpace: "joinSpace (splitSpace s) = s"
proof (induction s)
  case Nil
  then show ?case by simp
next
  case (Cons c cs)
  obtain w ws where sp: "splitSpace cs = w # ws"
    by (cases "splitSpace cs") auto
  show ?case
  proof (cases "c = 32")
    case True
    then show ?thesis using Cons by (simp add: joinSpace_Cons)
  next
    case False
    then show ?thesis using Cons sp by (cases ws) simp_all
  qed
qed

lemma splitSpace_no_space: "w \<in> set (splitSpace s) \<Longrightarrow> 32 \<notin> set w"
proof (induction s arbitrary: w)
  case Nil
  then show ?case by simp
next
  case (Cons c cs)
  obtain v vs where sp: "splitSpace cs = v # vs"
    by (cases "splitSpace cs") auto
  from Cons.IH [of v] Cons.IH sp have v: "32 \<notin> set v" and vs: "\<forall>u \<in> set vs. 32 \<notin> set u"
    by auto
  from Cons.prems sp v vs show ?case by (auto split: if_splits)
qed

lemma splitSpace_single: "32 \<notin> set s \<Longrightarrow> splitSpace s = [s]"
  by (induction s) auto

lemma splitSpace_append_space:
  "32 \<notin> set w \<Longrightarrow> splitSpace (w @ 32 # rest) = w # splitSpace rest"
  by (induction w) auto

lemma splitSpace_joinSpace:
  "ws \<noteq> [] \<Longrightarrow> \<forall>w \<in> set ws. 32 \<notin> set w \<Longrightarrow> splitSpace (joinSpace ws) = ws"
proof (induction ws)
  case Nil
  then show ?case by simp
next
  case (Cons w ws)
  show ?case
  proof (cases "ws = []")
    case True
    with Cons.prems show ?thesis by (simp add: splitSpace_single)
  next
    case False
    with Cons show ?thesis by (simp add: joinSpace_Cons splitSpace_append_space)
  qed
qed

subsection \<open>Substrings\<close>

lemma startsWith_set: "startsWith s p \<Longrightarrow> set p \<subseteq> set s"
  by (induction s p rule: startsWith.induct) auto

lemma includesStr_set: "includesStr s p \<Longrightarrow> set p \<subseteq> set s"
proof (induction s)
  case Nil
  then show ?case by simp
next
  case (Cons c cs)
  from Cons.prems have "startsWith (c # cs) p \<or> includesStr cs p" by simp
  then show ?case
  proof
    assume "startsWith (c # cs) p"
    then show ?thesis by (rule startsWith_set)
  next
    assume "includesStr cs p"
    then show ?thesis using Cons.IH by auto
  qed
qed

lemma cutAtSplitters_none:
  "\<forall>s \<in> set ss. \<not> includesStr t s \<Longrightarrow> cutAtSplitters ss m t = t"
  by (induction ss) simp_all

lemma splitters_space: "s \<in> set splitters \<Longrightarrow> 32 \<in> set s"
  by (auto simp: splitters_def js_def)

lemma cutAtSplitters_no_space: "32 \<notin> set t \<Longrightarrow> cutAtSplitters splitters m t = t"
  by (rule cutAtSplitters_none) (auto dest: includesStr_set splitters_space)

subsection \<open>The steps on the empty string\<close>

lemma collapseWs_Nil [simp]: "collapseWs [] = []"
  by (simp add: collapseWs_def)

lemma normalize1_Nil [simp]: "normalize1 [] = []"
  by (simp add: normalize1_def)

lemma cutAtSplitters_Nil [simp]: "cutAtSplitters ss m [] = []"
  using length_cutAtSplitters [of ss m "[]"] by simp

lemma repairEnding_Nil [simp]: "repairEnding [] = []"
  by (simp add: repairEnding_def dropBadEndings.simps [of "[[]]"])

lemma endsWithCI_Nil [simp]: "pat \<noteq> [] \<Longrightarrow> \<not> endsWithCI pat []"
  by (simp add: endsWithCI_def)

lemma nominationCut_Nil [simp]: "nominationCut [] = []"
  by (simp add: nominationCut_def replaceEhNomeado_def endsEhNomeado_def nominationTest_def
      endsNomeado_def js_def Let_def)

lemma fixNominationEndings_Nil [simp]: "fixNominationEndings [] = []"
  by (simp add: fixNominationEndings_def)

lemma removalRounds_unchanged:
  "tidy t \<Longrightarrow> \<forall>rx \<in> set rxs. removeWords rx t = t \<Longrightarrow> removalRounds rxs m t = t"
  by (induction rxs) (simp_all add: collapseWs_tidy trim_tidy)

text \<open>
  C10, amended. If the headline after the initial normalisation (ellipsis removed, white
  space collapsed, trimmed) is a single word, that is, contains no space, is longer than
  \<open>maxLength\<close> and is left unchanged by each of the three stop-word expressions, then
  \<open>finalizeHeadline\<close> returns the empty string, and \<open>fixNominationEndings\<close> leaves
  the empty string unchanged.
\<close>

theorem finalizeHeadline_single_word:
  assumes "32 \<notin> set (normalize1 text)"
    and "length (normalize1 text) > maxLength"
    and "list_all (\<lambda>rx. removeWords rx (normalize1 text) = normalize1 text) removalRoundsRx"
  shows "finalizeHeadline text maxLength = []
         \<and> fixNominationEndings (finalizeHeadline text maxLength) = []"
proof -
  let ?n = "normalize1 text"
  have ne: "text \<noteq> []" using assms(2) by auto
  have cut: "cutAtSplitters splitters maxLength ?n = ?n"
    by (rule cutAtSplitters_no_space [OF assms(1)])
  have rounds: "removalRounds removalRoundsRx maxLength ?n = ?n"
    by (rule removalRounds_unchanged [OF tidy_normalize1]) (use assms(3) in \<open>simp add: list_all_iff\<close>)
  have pack: "packToFit maxLength ?n = []"
    using assms(1,2) by (simp add: packToFit_def splitSpace_single)
  have "finalizeHeadline text maxLength = []"
    using ne by (simp add: finalizeHeadline_def Let_def cut rounds pack)
  then show ?thesis by simp
qed

lemma endsWithCI_suffix: "endsWithCI (p @ q) t \<Longrightarrow> endsWithCI q t"
proof -
  assume a: "endsWithCI (p @ q) t"
  then have len: "length p + length q \<le> length t"
    and eq: "map canonicalize (drop (length t - (length p + length q)) t)
               = map canonicalize p @ map canonicalize q"
    by (simp_all add: endsWithCI_def)
  have "drop (length t - length q) t = drop (length p) (drop (length t - (length p + length q)) t)"
    using len by simp
  then have "map canonicalize (drop (length t - length q) t)
      = drop (length p) (map canonicalize (drop (length t - (length p + length q)) t))"
    by (simp add: drop_map)
  also have "\<dots> = map canonicalize q" by (simp add: eq)
  finally show ?thesis using len by (simp add: endsWithCI_def)
qed

lemma endsEhNomeado_endsNomeado: "endsEhNomeado t \<Longrightarrow> endsNomeado t"
proof -
  assume "endsEhNomeado t"
  then have "endsWithCI ([0xE9, 32] @ js ''nomeado'') t \<or> endsWithCI ([0xE9, 32] @ js ''nomeada'') t"
    by (simp add: endsEhNomeado_def js_def)
  then show ?thesis
    unfolding endsNomeado_def using endsWithCI_suffix by blast
qed

lemma nominationCut_id: "\<not> endsNomeado t \<Longrightarrow> nominationCut t = t"
  using endsEhNomeado_endsNomeado [of t]
  by (auto simp: nominationCut_def replaceEhNomeado_def nominationTest_def Let_def)

lemma repairEnding_id:
  assumes "tidy t" and "toLowerCase (last (splitSpace t)) \<notin> set badEndings"
  shows "repairEnding t = t"
proof -
  have "dropBadEndings (splitSpace t) = splitSpace t"
    using assms(2) by (subst dropBadEndings.simps) simp
  then show ?thesis
    by (simp add: repairEnding_def joinSpace_splitSpace trim_tidy [OF assms(1)])
qed

text \<open>
  C5, amended. If the headline is at most \<open>maxLength\<close> long, the two steps that are
  guarded by the length, stop-word removal and word packing, are skipped: the result is
  the normalised headline after separator truncation, bad-ending repair and the
  nomination step. It is the headline itself if moreover the headline is already
  normalised, contains none of the four separators, its last word is no banned ending
  and it does not end in \<^verbatim>\<open>nomeado\<close> or \<^verbatim>\<open>nomeada\<close>.
\<close>

theorem finalizeHeadline_fitting:
  "length text \<le> maxLength \<longrightarrow>
     finalizeHeadline text maxLength
       = nominationCut (repairEnding (cutAtSplitters splitters maxLength (normalize1 text)))
     \<and> (normalize1 text = text \<and> list_all (\<lambda>s. \<not> includesStr text s) splitters
        \<and> toLowerCase (last (splitSpace text)) \<notin> set badEndings \<and> \<not> endsNomeado text
        \<longrightarrow> finalizeHeadline text maxLength = text)"
proof (intro impI conjI)
  assume fit: "length text \<le> maxLength"
  let ?c = "cutAtSplitters splitters maxLength (normalize1 text)"
  have "length ?c \<le> maxLength"
    using length_cutAtSplitters [of splitters maxLength "normalize1 text"]
      length_normalize1 [of "text"] fit by linarith
  then have skip: "removalRounds removalRoundsRx maxLength ?c = ?c" "packToFit maxLength ?c = ?c"
    by (simp_all add: removalRounds_fits packToFit_def)
  show main: "finalizeHeadline text maxLength = nominationCut (repairEnding ?c)"
  proof (cases "text = []")
    case True
    then show ?thesis by (simp add: finalizeHeadline_def)
  next
    case False
    then show ?thesis by (simp add: finalizeHeadline_def Let_def skip)
  qed
  assume h: "normalize1 text = text \<and> list_all (\<lambda>s. \<not> includesStr text s) splitters
        \<and> toLowerCase (last (splitSpace text)) \<notin> set badEndings \<and> \<not> endsNomeado text"
  then have t: "tidy text" using tidy_normalize1 [of "text"] by simp
  have c: "?c = text"
    using h cutAtSplitters_none [of splitters "text" maxLength] by (simp add: list_all_iff)
  show "finalizeHeadline text maxLength = text"
    unfolding main c using h by (simp add: repairEnding_id [OF t] nominationCut_id)
qed


subsection \<open>Code units that the steps can introduce\<close>

lemma removeEllipsis_no_ellipsis: "0x2026 \<notin> set (removeEllipsis s)"
  by (induction s rule: removeEllipsis.induct) auto


lemma set_collapseFrom: "x \<in> set (collapseFrom b s) \<Longrightarrow> x = 32 \<or> x \<in> set s"
  by (induction s arbitrary: b) (auto split: if_splits)

lemma set_collapseWs: "x \<in> set (collapseWs s) \<Longrightarrow> x = 32 \<or> x \<in> set s"
  unfolding collapseWs_def by (rule set_collapseFrom)

lemma set_beforeFirst: "set (beforeFirst sep s) \<subseteq> set s"
  by (induction s) auto

lemma set_cutAtSplitters: "set (cutAtSplitters ss m t) \<subseteq> set t"
proof (induction ss)
  case Nil
  then show ?case by simp
next
  case (Cons s ss)
  have "set (trim (beforeFirst s t)) \<subseteq> set t"
    using set_trim [of "beforeFirst s t"] set_beforeFirst [of s t] by blast
  with Cons show ?case by (simp add: Let_def)
qed

lemma set_removeWordsFrom: "set (removeWordsFrom alts p k s) \<subseteq> set s"
  by (induction s arbitrary: p k) (auto split: option.splits)

lemma set_removalRounds: "x \<in> set (removalRounds rxs m t) \<Longrightarrow> x = 32 \<or> x \<in> set t"
proof (induction rxs arbitrary: t)
  case Nil
  then show ?case by simp
next
  case (Cons rx rxs)
  show ?case
  proof (cases "length t \<le> m")
    case True
    with Cons.prems show ?thesis by simp
  next
    case False
    with Cons.prems have "x \<in> set (removalRounds rxs m (trim (collapseWs (removeWords rx t))))"
      by simp
    from Cons.IH [OF this] have "x = 32 \<or> x \<in> set (collapseWs (removeWords rx t))"
      using set_trim by blast
    then have "x = 32 \<or> x \<in> set (removeWords rx t)"
      using set_collapseWs by blast
    then show ?thesis
      using set_removeWordsFrom [of rx False 0 t] by (auto simp: removeWords_def)
  qed
qed

lemma set_splitSpace: "w \<in> set (splitSpace s) \<Longrightarrow> set w \<subseteq> set s"
proof (induction s arbitrary: w)
  case Nil
  then show ?case by simp
next
  case (Cons c cs)
  obtain v vs where sp: "splitSpace cs = v # vs"
    by (cases "splitSpace cs") auto
  from Cons.IH sp have "set v \<subseteq> set cs" "\<forall>u \<in> set vs. set u \<subseteq> set cs" by auto
  with Cons.prems sp show ?case by (auto split: if_splits)
qed

lemma set_joinSpace: "x \<in> set (joinSpace ws) \<Longrightarrow> x = 32 \<or> (\<exists>w \<in> set ws. x \<in> set w)"
  by (induction ws rule: joinSpace.induct) auto

lemma set_packWords:
  "x \<in> set (packWords m acc ws) \<Longrightarrow> x = 32 \<or> x \<in> set acc \<or> (\<exists>w \<in> set ws. x \<in> set w)"
proof (induction ws arbitrary: acc)
  case Nil
  then show ?case by simp
next
  case (Cons w ws)
  let ?next = "if acc \<noteq> [] then acc @ 32 # w else w"
  show ?case
  proof (cases "length ?next \<le> m")
    case True
    with Cons.prems have "x \<in> set (packWords m ?next ws)" by (simp add: Let_def)
    from Cons.IH [OF this] show ?thesis by (auto split: if_splits)
  next
    case False
    with Cons.prems show ?thesis by (simp add: Let_def)
  qed
qed

lemma set_packToFit: "x \<in> set (packToFit m t) \<Longrightarrow> x = 32 \<or> x \<in> set t"
proof (cases "length t > m")
  case True
  assume "x \<in> set (packToFit m t)"
  with True have "x \<in> set (packWords m [] (splitSpace t))"
    using set_trim by (auto simp: packToFit_def)
  from set_packWords [OF this] show ?thesis using set_splitSpace by auto
next
  case False
  assume "x \<in> set (packToFit m t)"
  with False show ?thesis by (simp add: packToFit_def)
qed

lemma dropBadEndings_take: "\<exists>k. dropBadEndings ws = take k ws \<and> (ws \<noteq> [] \<longrightarrow> 0 < k) \<and> k \<le> length ws"
proof (induction ws rule: dropBadEndings.induct)
  case (1 tokens)
  show ?case
  proof (cases "length tokens > 1 \<and> toLowerCase (last tokens) \<in> set badEndings")
    case True
    then obtain k where k: "dropBadEndings (butlast tokens) = take k (butlast tokens)"
      "butlast tokens \<noteq> [] \<longrightarrow> 0 < k" "k \<le> length (butlast tokens)"
      using "1.IH" by auto
    have bl: "butlast tokens \<noteq> []" using True by (cases tokens rule: rev_cases) auto
    have "k \<le> length tokens - 1" using k(3) by simp
    then have "take k (butlast tokens) = take k tokens"
      by (simp add: butlast_conv_take min_absorb1)
    with True k bl show ?thesis
      by (subst dropBadEndings.simps) (auto intro!: exI [of _ k])
  next
    case False
    then have "dropBadEndings tokens = take (length tokens) tokens"
      by (subst dropBadEndings.simps) auto
    then show ?thesis by (metis length_greater_0_conv order_refl)
  qed
qed

lemma dropBadEndings_last:
  "length (dropBadEndings ws) \<le> 1 \<or> toLowerCase (last (dropBadEndings ws)) \<notin> set badEndings"
proof (induction ws rule: dropBadEndings.induct)
  case (1 tokens)
  show ?case
  proof (cases "length tokens > 1 \<and> toLowerCase (last tokens) \<in> set badEndings")
    case True
    with "1.IH" show ?thesis by (subst (1 2) dropBadEndings.simps) simp
  next
    case False
    then have "dropBadEndings tokens = tokens" by (subst dropBadEndings.simps) auto
    with False show ?thesis by auto
  qed
qed

lemma set_repairEnding: "x \<in> set (repairEnding t) \<Longrightarrow> x = 32 \<or> x \<in> set t"
proof -
  assume "x \<in> set (repairEnding t)"
  then have "x \<in> set (joinSpace (dropBadEndings (splitSpace t)))"
    using set_trim by (auto simp: repairEnding_def)
  then have "x = 32 \<or> (\<exists>w \<in> set (dropBadEndings (splitSpace t)). x \<in> set w)"
    by (rule set_joinSpace)
  moreover have "set (dropBadEndings (splitSpace t)) \<subseteq> set (splitSpace t)"
    using dropBadEndings_take [of "splitSpace t"] by (auto dest: in_set_takeD)
  ultimately show ?thesis using set_splitSpace by blast
qed

lemma set_nominationCut:
  "x \<in> set (nominationCut t) \<Longrightarrow> x \<in> set t \<or> x \<in> set (js '' nomeado'')"
proof -
  assume a: "x \<in> set (nominationCut t)"
  have r: "set (replaceEhNomeado t) \<subseteq> set t \<union> set (js '' nomeado'')"
    using set_trimEnd [of "take (length t - 10) t"]
    by (auto simp: replaceEhNomeado_def Let_def dest: in_set_takeD)
  have "set (nominationCut t) \<subseteq> set (replaceEhNomeado t)"
    using set_trim [of "trimEnd (take (length (replaceEhNomeado t) - 7) (replaceEhNomeado t))"]
      set_trimEnd [of "take (length (replaceEhNomeado t) - 7) (replaceEhNomeado t)"]
    by (auto simp: nominationCut_def Let_def dest: in_set_takeD)
  with a r show ?thesis by blast
qed

lemma set_fixNominationEndings:
  "x \<in> set (fixNominationEndings t) \<Longrightarrow> x \<in> set t \<or> x \<in> set (js ''assume cargo'')"
  using set_trim [of "take (length t - 7) t @ js ''assume cargo''"]
    set_trim [of "take (length t - 9) t @ js ''assume cargo''"]
  by (auto simp: fixNominationEndings_def dest: in_set_takeD split: if_splits)

lemma finalizeHeadline_no_ellipsis: "0x2026 \<notin> set (fixNominationEndings (finalizeHeadline H B))"
proof (cases "H = []")
  case True
  then show ?thesis by (simp add: finalizeHeadline_def)
next
  case False
  let ?t1 = "normalize1 H"
  let ?t2 = "cutAtSplitters splitters B ?t1"
  let ?t3 = "removalRounds removalRoundsRx B ?t2"
  let ?t4 = "packToFit B ?t3"
  let ?t5 = "repairEnding ?t4"
  have f: "finalizeHeadline H B = nominationCut ?t5"
    using False by (simp add: finalizeHeadline_def Let_def)
  have "0x2026 \<notin> set ?t1"
    using removeEllipsis_no_ellipsis [of H] set_collapseWs [of "0x2026" "removeEllipsis H"]
      set_trim [of "collapseWs (removeEllipsis H)"]
    by (auto simp: normalize1_def)
  then have "0x2026 \<notin> set ?t2" using set_cutAtSplitters [of splitters B ?t1] by auto
  then have "0x2026 \<notin> set ?t3" using set_removalRounds [of "0x2026" removalRoundsRx B ?t2] by auto
  then have "0x2026 \<notin> set ?t4" using set_packToFit [of "0x2026" B ?t3] by auto
  then have "0x2026 \<notin> set ?t5" using set_repairEnding [of "0x2026" ?t4] by auto
  then have "0x2026 \<notin> set (nominationCut ?t5)"
    using set_nominationCut [of "0x2026" ?t5] by (auto simp: js_def)
  then show ?thesis
    unfolding f using set_fixNominationEndings [of "0x2026" "nominationCut ?t5"]
    by (auto simp: js_def)
qed

subsection \<open>Canonical composition\<close>

lemma compositions_table:
  "list_all (\<lambda>((b, m), r). \<not> isSpace b \<and> \<not> isSpace r \<and> r \<notin> set combiningMarks \<and> r \<noteq> 0x2026)
     compositions"
  by (simp add: compositions_def combiningMarks_def isSpace_def)

lemma combiningMarks_no_space: "u \<in> set combiningMarks \<Longrightarrow> \<not> isSpace u"
  by (auto simp: combiningMarks_def isSpace_def)

lemma composite_props:
  assumes "composite c u = Some r"
  shows "u \<in> set combiningMarks" "r \<notin> set combiningMarks" "\<not> isSpace c" "\<not> isSpace u"
    "\<not> isSpace r" "r \<noteq> 0x2026" "r \<in> set (map snd compositions)"
proof -
  from assms show m: "u \<in> set combiningMarks"
    by (simp add: composite_def split: if_splits)
  from assms have e: "((c, u), r) \<in> set compositions"
    by (auto simp: composite_def split: if_splits dest: map_of_SomeD)
  with compositions_table
  show "r \<notin> set combiningMarks" "\<not> isSpace c" "\<not> isSpace r" "r \<noteq> 0x2026"
    by (auto simp: list_all_iff)
  from m show "\<not> isSpace u" by (rule combiningMarks_no_space)
  from e show "r \<in> set (map snd compositions)" by force
qed

lemma composite_None: "u \<notin> set combiningMarks \<Longrightarrow> composite c u = None"
  by (simp add: composite_def)


lemma composeMarks_inert:
  "\<forall>u \<in> set us. u \<notin> set combiningMarks \<Longrightarrow> composeMarks c us = c # us"
  by (induction us arbitrary: c) (auto simp: composite_None)

text \<open>A string without combining marks is its own composition.\<close>

lemma normalizeNFC_inert: "\<forall>u \<in> set s. u \<notin> set combiningMarks \<Longrightarrow> normalizeNFC s = s"
  by (cases s) (simp_all add: normalizeNFC_def composeMarks_inert)






lemma set_composeMarks:
  "x \<in> set (composeMarks c us) \<Longrightarrow> x \<in> set (c # us) \<or> x \<in> set (map snd compositions)"
proof (induction us arbitrary: c)
  case Nil
  then show ?case by simp
next
  case (Cons u us)
  show ?case
  proof (cases "composite c u")
    case None
    with Cons.prems Cons.IH [of u] show ?thesis by auto
  next
    case (Some r)
    with Cons.prems Cons.IH [of r] composite_props(7) [OF Some] show ?thesis by auto
  qed
qed

lemma set_normalizeNFC:
  "x \<in> set (normalizeNFC s) \<Longrightarrow> x \<in> set s \<or> x \<in> set (map snd compositions)"
  by (cases s) (auto simp: normalizeNFC_def dest: set_composeMarks)





subsection \<open>The normaliser of the second variant\<close>



lemma conservative_cases:
  "conservative H = cleaned H \<or> (\<exists>k. k \<le> MAX_title \<and> conservative H = trim (take k (cleaned H)))"
proof (cases "length (cleaned H) > MAX_title")
  case False
  then show ?thesis by (simp add: conservative_def)
next
  case True
  let ?slice = "take (MAX_title + 1) (cleaned H)"
  let ?cut = "lastIndexOf 32 ?slice"
  show ?thesis
  proof (cases "?cut > 40")
    case c: True
    have "?cut < int (length ?slice)" by (simp add: lastIndexOf_def)
    then have le: "nat ?cut \<le> MAX_title" by simp
    then have "take (nat ?cut) ?slice = take (nat ?cut) (cleaned H)" by (simp add: min_def)
    with True c have "conservative H = trim (take (nat ?cut) (cleaned H))"
      by (simp add: conservative_def Let_def)
    with le show ?thesis by blast
  next
    case c: False
    with True have "conservative H = trim (take MAX_title (cleaned H))"
      by (simp add: conservative_def Let_def)
    then show ?thesis by blast
  qed
qed

lemma conservative_length: "length (conservative H) \<le> MAX_title"
proof -
  from conservative_cases [of H] show ?thesis
  proof
    assume c: "conservative H = cleaned H"
    show ?thesis
    proof (cases "length (cleaned H) > MAX_title")
      case True
      have "length (conservative H) \<le> MAX_title"
        using True length_trim [of "take (nat (lastIndexOf 32 (take (MAX_title + 1) (cleaned H)))) (take (MAX_title + 1) (cleaned H))"]
          length_trim [of "take MAX_title (cleaned H)"]
        by (auto simp: conservative_def Let_def lastIndexOf_def MAX_title_def split: if_splits)
      then show ?thesis .
    next
      case False
      with c show ?thesis by simp
    qed
  next
    assume "\<exists>k. k \<le> MAX_title \<and> conservative H = trim (take k (cleaned H))"
    then obtain k where k: "k \<le> MAX_title" "conservative H = trim (take k (cleaned H))" by blast
    then show ?thesis using length_trim [of "take k (cleaned H)"] by simp
  qed
qed

lemma entities_table:
  "list_all (\<lambda>(k, v). length v = 1 \<and> (\<forall>u \<in> set v. u < 0x0300 \<or> (0x2002 \<le> u \<and> u \<le> 0x205F)))
     entities"
  by (simp add: entities_def js_def)

lemma entities_value:
  assumes "map_of entities k = Some v"
  shows "length v = 1" "\<forall>u \<in> set v. u < 0x0300 \<or> (0x2002 \<le> u \<and> u \<le> 0x205F)"
proof -
  from assms have "(k, v) \<in> set entities" by (rule map_of_SomeD)
  with entities_table show "length v = 1"
    "\<forall>u \<in> set v. u < 0x0300 \<or> (0x2002 \<le> u \<and> u \<le> 0x205F)"
    by (auto simp: list_all_iff)
qed

lemma decodeEntities_id: "38 \<notin> set s \<Longrightarrow> decodeEntities s = s"
  by (induction s) (auto simp: Let_def)



lemma set_decodeEntities:
  "x \<in> set (decodeEntities s) \<Longrightarrow>
   x \<in> set s \<or> x < 0x0300 \<or> (0x2002 \<le> x \<and> x \<le> 0x205F)"
proof (induction s rule: decodeEntities.induct)
  case 1
  then show ?case by simp
next
  case (2 c cs)
  define n where "n = takeWhile isAlnum cs"
  define r where "r = dropWhile isAlnum cs"
  define d where "d = drop (Suc (length n)) cs"
  show ?case
  proof (cases "c = 38 \<and> n \<noteq> [] \<and> r \<noteq> [] \<and> hd r = 59")
    case False
    have "decodeEntities (c # cs) = c # decodeEntities cs"
      using False by (auto simp: Let_def n_def r_def)
    with 2(2) [OF n_def r_def False] 2(3) show ?thesis by auto
  next
    case True
    have IH: "x \<in> set (decodeEntities d) \<Longrightarrow>
        x \<in> set d \<or> x < 0x0300 \<or> (0x2002 \<le> x \<and> x \<le> 0x205F)"
      using 2(1) [OF n_def r_def True] unfolding d_def by simp
    have sub: "set d \<subseteq> set cs" unfolding d_def by (rule set_drop_subset)
    have sn: "set n \<subseteq> set cs" unfolding n_def by (auto dest: set_takeWhileD)
    have dec: "decodeEntities (c # cs)
      = (case map_of entities (38 # n @ [59]) of Some v \<Rightarrow> v | None \<Rightarrow> 38 # n @ [59])
         @ decodeEntities d"
      using True by (simp add: Let_def n_def r_def d_def split: option.splits)
    show ?thesis
    proof (cases "map_of entities (38 # n @ [59])")
      case None
      have e: "set (decodeEntities (c # cs)) = {38, 59} \<union> set n \<union> set (decodeEntities d)"
        unfolding dec None by auto
      from 2(3) [unfolded e] IH sub sn show ?thesis by auto
    next
      case (Some v)
      have e: "set (decodeEntities (c # cs)) = set v \<union> set (decodeEntities d)"
        unfolding dec Some by simp
      from 2(3) [unfolded e] IH sub entities_value(2) [OF Some] show ?thesis by auto
    qed
  qed
qed

lemma set_removeEllipsisFrom: "set (removeEllipsisFrom b s) \<subseteq> set s"
  by (induction s arbitrary: b) auto




lemma finalizeHeadline_v2_cleaned: "finalizeHeadline_v2 x = cleaned x"
proof (cases "x = []")
  case True
  then show ?thesis
    by (simp add: finalizeHeadline_v2_def cleaned_def decodeHtmlEntitiesAll_def
        removeEllipsisRuns_def normalizeNFC_def)
next
  case False
  then show ?thesis by (simp add: finalizeHeadline_v2_def cleaned_def)
qed

text \<open>
  The normaliser applies \<^verbatim>\<open>normalize\<close> to covered strings only when its argument is
  covered, and its result is covered again.
\<close>

lemma nfcCovered_iff:
  "nfcCovered s \<longleftrightarrow>
   (\<forall>u \<in> set s. u < 0x0300 \<or> (0x2002 \<le> u \<and> u \<le> 0x205F) \<or> u \<in> set combiningMarks
                 \<or> u \<in> set (map snd compositions))"
  by (simp add: nfcCovered_def list_all_iff)

lemma nfcCovered_normalizeNFC: "nfcCovered s \<Longrightarrow> nfcCovered (normalizeNFC s)"
  unfolding nfcCovered_iff using set_normalizeNFC [of _ s] by blast

lemma nfcCovered_decodeEntities: "nfcCovered s \<Longrightarrow> nfcCovered (decodeEntities s)"
  unfolding nfcCovered_iff using set_decodeEntities [of _ s] by blast

lemma nfcCovered_tidied:
  assumes "nfcCovered s"
  shows "nfcCovered (trim (collapseWs (removeEllipsisRuns s)))"
  unfolding nfcCovered_iff
proof
  fix u
  assume "u \<in> set (trim (collapseWs (removeEllipsisRuns s)))"
  then have "u \<in> set (collapseWs (removeEllipsisRuns s))"
    using set_trim [of "collapseWs (removeEllipsisRuns s)"] by blast
  then have "u = 32 \<or> u \<in> set (removeEllipsisRuns s)" by (rule set_collapseWs)
  then have "u = 32 \<or> u \<in> set s"
    using set_removeEllipsisFrom [of False s] by (auto simp: removeEllipsisRuns_def)
  then show "u < 0x0300 \<or> (0x2002 \<le> u \<and> u \<le> 0x205F) \<or> u \<in> set combiningMarks
            \<or> u \<in> set (map snd compositions)"
    using assms unfolding nfcCovered_iff by auto
qed

lemma nfcCovered_stages:
  assumes "nfcCovered x"
  shows "nfcCovered (decodeEntities x)"
    and "nfcCovered (trim (collapseWs (removeEllipsisRuns (decodeHtmlEntitiesAll x))))"
    and "nfcCovered (finalizeHeadline_v2 x)"
proof -
  show 1: "nfcCovered (decodeEntities x)" by (rule nfcCovered_decodeEntities [OF assms])
  have "nfcCovered (decodeHtmlEntitiesAll x)"
    using nfcCovered_normalizeNFC [OF 1] by (simp add: decodeHtmlEntitiesAll_def nfcCovered_def)
  then show 2: "nfcCovered (trim (collapseWs (removeEllipsisRuns (decodeHtmlEntitiesAll x))))"
    by (rule nfcCovered_tidied)
  show "nfcCovered (finalizeHeadline_v2 x)"
    unfolding finalizeHeadline_v2_cleaned cleaned_def by (rule nfcCovered_normalizeNFC [OF 2])
qed



subsection \<open>Tokens of tidy strings\<close>

lemma spaced_tokens:
  "spacedFrom b s \<Longrightarrow> s \<noteq> [] \<Longrightarrow> last s \<noteq> 32 \<Longrightarrow> splitSpace s = w # ws \<Longrightarrow>
   cleanTokens ws \<and> (\<forall>c \<in> set w. \<not> isSpace c) \<and> (b \<longrightarrow> w \<noteq> [])"
proof (induction s arbitrary: b w ws)
  case Nil
  then show ?case by simp
next
  case (Cons c cs)
  show ?case
  proof (cases "cs = []")
    case True
    with Cons.prems have "\<not> isSpace c" by (auto split: if_splits)
    with True Cons.prems show ?thesis by (auto simp: cleanTokens_def)
  next
    case False
    then have l: "last cs \<noteq> 32" using Cons.prems(3) by simp
    obtain v vs where sp: "splitSpace cs = v # vs"
      by (cases "splitSpace cs") auto
    show ?thesis
    proof (cases "isSpace c")
      case True
      with Cons.prems(1) have c: "c = 32" and nb: "\<not> b" and s: "spacedFrom True cs" by auto
      from Cons.IH [OF s False l sp]
      have "cleanTokens vs" "\<forall>c \<in> set v. \<not> isSpace c" "v \<noteq> []" by auto
      then have "cleanTokens (v # vs)" by (auto simp: cleanTokens_def)
      with Cons.prems(4) c nb sp show ?thesis by auto
    next
      case nsp: False
      with Cons.prems(1) have s: "spacedFrom False cs" by auto
      from nsp have c32: "c \<noteq> 32" by auto
      from Cons.IH [OF s False l sp]
      have "cleanTokens vs" "\<forall>c \<in> set v. \<not> isSpace c" by auto
      with Cons.prems(4) c32 sp nsp show ?thesis by auto
    qed
  qed
qed

lemma tidy_tokens: "tidy s \<Longrightarrow> s \<noteq> [] \<Longrightarrow> cleanTokens (splitSpace s)"
proof -
  assume t: "tidy s" and ne: "s \<noteq> []"
  obtain w ws where sp: "splitSpace s = w # ws" by (cases "splitSpace s") auto
  from t ne have "spacedFrom True s" "last s \<noteq> 32" by (auto simp: tidy_def)
  from spaced_tokens [OF this(1) ne this(2) sp] show ?thesis
    by (auto simp: sp cleanTokens_def)
qed

lemma cleanTokens_take: "cleanTokens ws \<Longrightarrow> cleanTokens (take k ws)"
  by (auto simp: cleanTokens_def dest: in_set_takeD)

lemma cleanTokens_no_space: "cleanTokens ws \<Longrightarrow> \<forall>w \<in> set ws. 32 \<notin> set w"
  unfolding cleanTokens_def using isSpace_32 by blast

lemma joinSpace_eq_Nil: "\<forall>w \<in> set ws. w \<noteq> [] \<Longrightarrow> joinSpace ws = [] \<longleftrightarrow> ws = []"
  by (induction ws rule: joinSpace.induct) auto

lemma joinSpace_snoc: "pre \<noteq> [] \<Longrightarrow> joinSpace (pre @ [w]) = joinSpace pre @ 32 # w"
  by (induction pre rule: joinSpace.induct) (auto simp: joinSpace_Cons)

lemma spacedFrom_word:
  "\<forall>c \<in> set w. \<not> isSpace c \<Longrightarrow> w \<noteq> [] \<Longrightarrow> spacedFrom b (w @ r) = spacedFrom False r"
  by (induction w arbitrary: b) (auto, (case_tac w; simp)+)

lemma tidy_joinSpace: "cleanTokens ws \<Longrightarrow> tidy (joinSpace ws)"
proof (induction ws rule: joinSpace.induct)
  case 1
  then show ?case by simp
next
  case (2 w)
  then have w: "w \<noteq> []" "\<forall>c \<in> set w. \<not> isSpace c" by (auto simp: cleanTokens_def)
  then have "spacedFrom True (w @ [])" by (subst spacedFrom_word) simp_all
  moreover have "last w \<noteq> 32" using w by (metis isSpace_32 last_in_set)
  ultimately show ?case by (simp add: tidy_def)
next
  case (3 w v vs)
  then have w: "w \<noteq> []" "\<forall>c \<in> set w. \<not> isSpace c" and c: "cleanTokens (v # vs)"
    by (auto simp: cleanTokens_def)
  from "3.IH" [OF c] have t: "tidy (joinSpace (v # vs))" .
  have ne: "joinSpace (v # vs) \<noteq> []"
    using c joinSpace_eq_Nil [of "v # vs"] by (auto simp: cleanTokens_def)
  have "spacedFrom True (w @ 32 # joinSpace (v # vs)) = spacedFrom False (32 # joinSpace (v # vs))"
    by (rule spacedFrom_word [OF w(2,1)])
  with t have "spacedFrom True (w @ 32 # joinSpace (v # vs))" by (simp add: tidy_def)
  moreover have "last (w @ 32 # joinSpace (v # vs)) \<noteq> 32"
    using t ne by (simp add: tidy_def)
  ultimately show ?case by (simp add: tidy_def)
qed

lemma length_joinSpace_take: "length (joinSpace (take k ws)) \<le> length (joinSpace ws)"
proof (induction ws arbitrary: k rule: joinSpace.induct)
  case 1
  then show ?case by simp
next
  case (2 w)
  then show ?case by (cases k) simp_all
next
  case (3 w v vs)
  show ?case
  proof (cases k)
    case 0
    then show ?thesis by simp
  next
    case (Suc j)
    show ?thesis
    proof (cases "take j (v # vs) = []")
      case True
      then show ?thesis using Suc by simp
    next
      case False
      then have "joinSpace (take k (w # v # vs)) = w @ 32 # joinSpace (take j (v # vs))"
        using Suc by (simp add: joinSpace_Cons)
      with "3.IH" [of j] show ?thesis by simp
    qed
  qed
qed

lemma length_packWords: "length acc \<le> m \<Longrightarrow> length (packWords m acc ws) \<le> m"
  by (induction ws arbitrary: acc) (auto simp: Let_def)

lemma packWords_take:
  "\<forall>w \<in> set ws. w \<noteq> [] \<Longrightarrow> \<forall>w \<in> set pre. w \<noteq> [] \<Longrightarrow>
   \<exists>k. packWords m (joinSpace pre) ws = joinSpace (pre @ take k ws)"
proof (induction ws arbitrary: pre)
  case Nil
  then show ?case by simp
next
  case (Cons w ws)
  have nx: "(if joinSpace pre \<noteq> [] then joinSpace pre @ 32 # w else w) = joinSpace (pre @ [w])"
    using joinSpace_eq_Nil [OF Cons.prems(2)] by (cases "pre = []") (simp_all add: joinSpace_snoc)
  show ?case
  proof (cases "length (joinSpace (pre @ [w])) \<le> m")
    case True
    have "\<forall>u \<in> set (pre @ [w]). u \<noteq> []" using Cons.prems by auto
    with Cons.IH [of "pre @ [w]"] Cons.prems(1)
    obtain k where "packWords m (joinSpace (pre @ [w])) ws = joinSpace ((pre @ [w]) @ take k ws)"
      by auto
    then have "packWords m (joinSpace pre) (w # ws) = joinSpace (pre @ take (Suc k) (w # ws))"
      using True nx by (simp add: Let_def)
    then show ?thesis by blast
  next
    case False
    then have "packWords m (joinSpace pre) (w # ws) = joinSpace (pre @ take 0 (w # ws))"
      using nx by (simp add: Let_def)
    then show ?thesis by blast
  qed
qed

lemma packToFit_take:
  assumes "tidy t"
  shows "\<exists>k. packToFit m t = joinSpace (take k (splitSpace t))"
proof (cases "length t > m")
  case False
  then have "packToFit m t = joinSpace (take (length (splitSpace t)) (splitSpace t))"
    by (simp add: packToFit_def joinSpace_splitSpace)
  then show ?thesis by blast
next
  case True
  then have ne: "t \<noteq> []" by auto
  have c: "cleanTokens (splitSpace t)" by (rule tidy_tokens [OF assms ne])
  then have "\<forall>w \<in> set (splitSpace t). w \<noteq> []" by (simp add: cleanTokens_def)
  from packWords_take [OF this, of "[]" m]
  obtain k where k: "packWords m [] (splitSpace t) = joinSpace (take k (splitSpace t))" by auto
  have "tidy (joinSpace (take k (splitSpace t)))"
    by (rule tidy_joinSpace [OF cleanTokens_take [OF c]])
  then have "packToFit m t = joinSpace (take k (splitSpace t))"
    using True k by (simp add: packToFit_def trim_tidy)
  then show ?thesis by blast
qed

lemma packToFit_fits: "length (packToFit m t) \<le> m"
  using length_trim [of "packWords m [] (splitSpace t)"] length_packWords [of "[]" m "splitSpace t"]
  by (auto simp: packToFit_def)

lemma repairEnding_tokens:
  assumes "cleanTokens toks" and "toks \<noteq> []"
  shows "\<exists>k. 0 < k \<and> k \<le> length toks \<and> repairEnding (joinSpace toks) = joinSpace (take k toks)
             \<and> (k \<le> 1 \<or> toLowerCase (last (take k toks)) \<notin> set badEndings)"
proof -
  have sp: "splitSpace (joinSpace toks) = toks"
    by (rule splitSpace_joinSpace [OF assms(2) cleanTokens_no_space [OF assms(1)]])
  obtain k where k: "dropBadEndings toks = take k toks" "0 < k" "k \<le> length toks"
    using dropBadEndings_take [of toks] assms(2) by auto
  have "tidy (joinSpace (take k toks))"
    by (rule tidy_joinSpace [OF cleanTokens_take [OF assms(1)]])
  then have r: "repairEnding (joinSpace toks) = joinSpace (take k toks)"
    by (simp add: repairEnding_def sp k(1) trim_tidy)
  have "k \<le> 1 \<or> toLowerCase (last (take k toks)) \<notin> set badEndings"
    using dropBadEndings_last [of toks] k by (simp add: min_absorb2)
  with k r show ?thesis by blast
qed

lemma tidy_cutAtSplitters: "tidy t \<Longrightarrow> tidy (cutAtSplitters ss m t)"
proof (induction ss)
  case Nil
  then show ?case by simp
next
  case (Cons s ss)
  have p: "prefix (beforeFirst s t) t"
    by (induction t) auto
  have "spacedFrom True (beforeFirst s t)"
    using Cons.prems by (auto simp: tidy_def intro: spacedFrom_prefix [OF p])
  then have "tidy (trim (beforeFirst s t))" by (rule tidy_trim)
  with Cons show ?case by (simp add: Let_def)
qed

lemma tidy_removalRounds: "tidy t \<Longrightarrow> tidy (removalRounds rxs m t)"
  by (induction rxs arbitrary: t) (simp_all add: tidy_trim_collapseWs)

lemma tidy_lead:
  "tidy (removalRounds removalRoundsRx B (cutAtSplitters splitters B (normalize1 H)))"
  by (intro tidy_removalRounds tidy_cutAtSplitters tidy_normalize1)

lemma pack_repair_take:
  assumes "tidy t"
  shows "\<exists>k. repairEnding (packToFit m t) = joinSpace (take k (splitSpace t))"
proof -
  obtain j where j: "packToFit m t = joinSpace (take j (splitSpace t))"
    using packToFit_take [OF assms] by blast
  show ?thesis
  proof (cases "packToFit m t = []")
    case True
    then have "repairEnding (packToFit m t) = joinSpace (take 0 (splitSpace t))" by simp
    then show ?thesis by blast
  next
    case False
    then have tne: "t \<noteq> []" by (auto simp: packToFit_def split: if_splits)
    have c: "cleanTokens (take j (splitSpace t))"
      by (rule cleanTokens_take [OF tidy_tokens [OF assms tne]])
    have ne: "take j (splitSpace t) \<noteq> []"
    proof
      assume "take j (splitSpace t) = []"
      then have "joinSpace (take j (splitSpace t)) = []" by (simp only: joinSpace.simps)
      with False j show False by simp
    qed
    from repairEnding_tokens [OF c ne] obtain k where
      "repairEnding (joinSpace (take j (splitSpace t))) = joinSpace (take k (take j (splitSpace t)))"
      by blast
    then have "repairEnding (packToFit m t) = joinSpace (take (min k j) (splitSpace t))"
      by (simp add: j)
    then show ?thesis by blast
  qed
qed

subsection \<open>The nomination step after the bad-ending repair\<close>

lemma splitSpace_append: "splitSpace (a @ 32 # b) = splitSpace a @ splitSpace b"
proof (induction a)
  case Nil
  then show ?case by simp
next
  case (Cons c a)
  obtain w ws where sp: "splitSpace a = w # ws" by (cases "splitSpace a") auto
  with Cons show ?case by simp
qed

lemma canonicalize_lower:
  "97 \<le> p \<Longrightarrow> p \<le> 122 \<Longrightarrow> canonicalize c = canonicalize p \<Longrightarrow> lowerUnit c = p"
  by (auto simp: canonicalize_def lowerUnit_def split: if_splits)

lemma canonicalize_lower_list:
  "list_all (\<lambda>p. 97 \<le> p \<and> p \<le> 122) P \<Longrightarrow> map canonicalize N = map canonicalize P \<Longrightarrow>
   toLowerCase N = P"
proof (induction N arbitrary: P)
  case Nil
  then show ?case by (simp add: toLowerCase_def)
next
  case (Cons c N)
  then obtain p P' where P: "P = p # P'" by (cases P) auto
  with Cons.prems have "lowerUnit c = p" "toLowerCase N = P'"
    using Cons.IH [of P'] by (auto simp: canonicalize_lower)
  with P show ?case by (simp add: toLowerCase_def)
qed

lemma endsWithCI_parts:
  "endsWithCI pat s \<Longrightarrow>
   \<exists>u N. s = u @ N \<and> length N = length pat \<and> map canonicalize N = map canonicalize pat"
proof -
  assume "endsWithCI pat s"
  then have l: "length pat \<le> length s"
    and e: "map canonicalize (drop (length s - length pat) s) = map canonicalize pat"
    by (simp_all add: endsWithCI_def)
  have "s = take (length s - length pat) s @ drop (length s - length pat) s" by simp
  moreover have "length (drop (length s - length pat) s) = length pat" using l by simp
  ultimately show ?thesis using e by blast
qed

lemma nomeado_lower: "list_all (\<lambda>p. 97 \<le> p \<and> p \<le> 122) (js ''nomeado'')"
  "list_all (\<lambda>p. 97 \<le> p \<and> p \<le> 122) (js ''nomeada'')"
  by (simp_all add: js_def)

lemma nomeado_bad: "js ''nomeado'' \<in> set badEndings" "js ''nomeada'' \<in> set badEndings"
  by (simp_all add: badEndings_def)

lemma toLowerCase_space: "32 \<in> set N \<Longrightarrow> 32 \<in> set (toLowerCase N)"
proof -
  assume a: "32 \<in> set N"
  have "lowerUnit 32 = 32" by (simp add: lowerUnit_def)
  with a show ?thesis by (force simp: toLowerCase_def)
qed

lemma endsWithCI_nomeado_parts:
  assumes "endsWithCI P s" and "list_all (\<lambda>p. 97 \<le> p \<and> p \<le> 122) P" and "length P = 7"
    and "P \<in> set badEndings"
  shows "\<exists>u N. s = u @ N \<and> length N = 7 \<and> toLowerCase N \<in> set badEndings \<and> 32 \<notin> set N"
proof -
  from endsWithCI_parts [OF assms(1)] obtain u N where
    p: "s = u @ N" "length N = length P" "map canonicalize N = map canonicalize P" by blast
  have lo: "toLowerCase N = P"
    by (rule canonicalize_lower_list [OF assms(2) p(3)])
  have "32 \<notin> set P" using assms(2) by (auto simp: list_all_iff)
  then have n32: "32 \<notin> set N" using toLowerCase_space [of N] lo by auto
  have "length N = 7" using p(2) assms(3) by simp
  with p(1) lo assms(4) n32 show ?thesis by blast
qed

lemma endsNomeado_parts:
  assumes "endsNomeado s"
  shows "\<exists>u N. s = u @ N \<and> length N = 7 \<and> toLowerCase N \<in> set badEndings \<and> 32 \<notin> set N"
proof -
  have l: "length (js ''nomeado'') = 7" "length (js ''nomeada'') = 7" by (simp_all add: js_def)
  from assms consider "endsWithCI (js ''nomeado'') s" | "endsWithCI (js ''nomeada'') s"
    by (auto simp: endsNomeado_def)
  then show ?thesis
  proof cases
    case 1
    show ?thesis
      by (rule endsWithCI_nomeado_parts [OF 1 nomeado_lower(1) l(1) nomeado_bad(1)])
  next
    case 2
    show ?thesis
      by (rule endsWithCI_nomeado_parts [OF 2 nomeado_lower(2) l(2) nomeado_bad(2)])
  qed
qed

lemma endsNomeado_last: "endsNomeado s \<Longrightarrow> s \<noteq> [] \<and> isWordChar (last s)"
proof -
  assume a: "endsNomeado s"
  have k: "\<And>pat. pat \<noteq> [] \<Longrightarrow> endsWithCI pat s \<Longrightarrow>
            s \<noteq> [] \<and> canonicalize (last s) = canonicalize (last pat)"
  proof -
    fix pat :: jsstring
    assume ne: "pat \<noteq> []" and e: "endsWithCI pat s"
    from endsWithCI_parts [OF e] obtain u N where
      p: "s = u @ N" "length N = length pat" "map canonicalize N = map canonicalize pat" by blast
    from p(2) ne have N: "N \<noteq> []" by auto
    have "last (map canonicalize N) = last (map canonicalize pat)" by (simp add: p(3))
    then have "canonicalize (last N) = canonicalize (last pat)"
      using N ne by (simp add: last_map)
    with p(1) N show "s \<noteq> [] \<and> canonicalize (last s) = canonicalize (last pat)" by simp
  qed
  from a consider "endsWithCI (js ''nomeado'') s" | "endsWithCI (js ''nomeada'') s"
    by (auto simp: endsNomeado_def)
  then show ?thesis
  proof cases
    case 1
    from k [OF _ 1] have "s \<noteq> []" "canonicalize (last s) = 79"
      by (simp_all add: js_def canonicalize_def)
    then show ?thesis by (auto simp: canonicalize_def isWordChar_def split: if_splits)
  next
    case 2
    from k [OF _ 2] have "s \<noteq> []" "canonicalize (last s) = 65"
      by (simp_all add: js_def canonicalize_def)
    then show ?thesis by (auto simp: canonicalize_def isWordChar_def split: if_splits)
  qed
qed

lemma last_token:
  assumes "cleanTokens T" and "T \<noteq> []" and "joinSpace T = u @ 32 # N" and "32 \<notin> set N"
  shows "last T = N \<and> 2 \<le> length T"
proof -
  have "splitSpace (joinSpace T) = T"
    by (rule splitSpace_joinSpace [OF assms(2) cleanTokens_no_space [OF assms(1)]])
  then have T: "T = splitSpace u @ [N]"
    by (simp add: assms(3) splitSpace_append splitSpace_single [OF assms(4)])
  have "splitSpace u \<noteq> []" by simp
  then have "1 \<le> length (splitSpace u)" by (cases "splitSpace u") simp_all
  then show ?thesis by (subst (1 2) T) simp
qed

lemma nomination_final:
  assumes c: "cleanTokens T" and ne: "T \<noteq> []"
    and b: "length T \<le> 1 \<or> toLowerCase (last T) \<notin> set badEndings"
  shows "fixNominationEndings (nominationCut (joinSpace T)) = nominationCut (joinSpace T)
         \<and> length (nominationCut (joinSpace T)) \<le> length (joinSpace T)"
proof -
  let ?s = "joinSpace T"
  have t: "tidy ?s" by (rule tidy_joinSpace [OF c])
  have K: False if "?s = u @ N" "toLowerCase N \<in> set badEndings" "32 \<notin> set N"
    "u \<noteq> []" "last u = 32" for u N
  proof -
    from that(4,5) have "u = butlast u @ [32]" by (metis append_butlast_last_id)
    then have "?s = butlast u @ 32 # N" using that(1) by (metis append.assoc append_Cons append_Nil)
    from last_token [OF c ne this that(3)] that(2) b show False by auto
  qed
  have noEh: "\<not> endsEhNomeado ?s"
  proof
    assume e: "endsEhNomeado ?s"
    then have en: "endsNomeado ?s" by (rule endsEhNomeado_endsNomeado)
    from endsNomeado_parts [OF en] obtain u N where
      p: "?s = u @ N" "length N = 7" "toLowerCase N \<in> set badEndings" "32 \<notin> set N" by blast
    from e have "endsWithCI ([0xE9, 32] @ js ''nomeado'') ?s \<or> endsWithCI ([0xE9, 32] @ js ''nomeada'') ?s"
      by (simp add: endsEhNomeado_def js_def)
    then obtain pat where pat: "endsWithCI ([0xE9, 32] @ pat) ?s" "length pat = 7"
      by (auto simp: js_def)
    from endsWithCI_parts [OF pat(1)] obtain v M where
      q: "?s = v @ M" "length M = length ([0xE9, 32] @ pat)"
        "map canonicalize M = map canonicalize ([0xE9, 32] @ pat)" by blast
    from q(2) pat(2) obtain m1 m2 M' where M: "M = m1 # m2 # M'" "length M' = 7"
      by (cases M; cases "tl M") auto
    from q(3) M have "canonicalize m2 = 32" by (simp add: canonicalize_def)
    then have m2: "m2 = 32" by (auto simp: canonicalize_def split: if_splits)
    have "u @ N = (v @ [m1, m2]) @ M'" using p(1) q(1) M by simp
    with p(2) M(2) have "u = v @ [m1, m2]" by (metis append_eq_append_conv)
    then have "u \<noteq> []" "last u = 32" using m2 by simp_all
    from K [OF p(1) p(3) p(4) this] show False .
  qed
  then have rep: "replaceEhNomeado ?s = ?s" by (simp add: replaceEhNomeado_def Let_def)
  show ?thesis
  proof (cases "nominationTest ?s")
    case False
    then have n: "nominationCut ?s = ?s" by (simp add: nominationCut_def rep Let_def)
    have "\<not> ehNominationTest ?s" using noEh by (simp add: ehNominationTest_def)
    with False have "fixNominationEndings ?s = ?s" by (simp add: fixNominationEndings_def)
    with n show ?thesis by simp
  next
    case True
    then have en: "endsNomeado ?s"
      and bd: "length ?s = 7 \<or> \<not> isWordChar (?s ! (length ?s - 8))"
      by (simp_all add: nominationTest_def)
    from endsNomeado_parts [OF en] obtain u N where
      p: "?s = u @ N" "length N = 7" "toLowerCase N \<in> set badEndings" "32 \<notin> set N" by blast
    have tk: "take (length ?s - 7) ?s = u" by (subst (1 2) p(1)) (simp add: p(2))
    have n: "nominationCut ?s = trim (trimEnd u)"
      using True by (simp add: nominationCut_def rep Let_def tk)
    show ?thesis
    proof (cases "u = []")
      case True
      with n show ?thesis by simp
    next
      case False
      have "?s ! (length ?s - 8) = last u"
        using False by (subst (1 2) p(1)) (simp add: p(2) nth_append last_conv_nth)
      with bd p(1,2) False have nw: "\<not> isWordChar (last u)" by auto
      have "last u \<noteq> 32" using K [OF p(1) p(3) p(4) False] by blast
      moreover have "last u \<in> set ?s" using False by (subst p(1)) simp
      ultimately have ns: "\<not> isSpace (last u)"
        using t spacedFrom_space [of True ?s "last u"] by (auto simp: tidy_def)
      have "?s \<noteq> []" using False p(1) by auto
      then have "\<not> isSpace (hd ?s)" using tidy_ends [OF t] by simp
      moreover have "hd ?s = hd u" using False by (subst p(1)) simp
      ultimately have nh: "\<not> isSpace (hd u)" by simp
      have "trim (trimEnd u) = u"
        using ns nh by (simp add: trimEnd_id trim_id)
      with n have r: "nominationCut ?s = u" by simp
      have "\<not> endsNomeado u" using endsNomeado_last [of u] nw by blast
      then have "\<not> nominationTest u" "\<not> ehNominationTest u"
        using endsEhNomeado_endsNomeado [of u] by (auto simp: nominationTest_def ehNominationTest_def)
      then have "fixNominationEndings u = u" by (simp add: fixNominationEndings_def)
      moreover have "length u \<le> length ?s" by (subst p(1)) simp
      ultimately show ?thesis by (simp add: r)
    qed
  qed
qed

lemma nomination_after_repair:
  assumes "tidy t"
  shows "fixNominationEndings (nominationCut (repairEnding t)) = nominationCut (repairEnding t)
         \<and> length (nominationCut (repairEnding t)) \<le> length t"
proof (cases "t = []")
  case True
  then show ?thesis by simp
next
  case False
  let ?toks = "splitSpace t"
  have c: "cleanTokens ?toks" by (rule tidy_tokens [OF assms False])
  have ne: "?toks \<noteq> []" by simp
  have j: "joinSpace ?toks = t" by (rule joinSpace_splitSpace)
  from repairEnding_tokens [OF c ne] obtain k where
    k: "0 < k" "k \<le> length ?toks" "repairEnding t = joinSpace (take k ?toks)"
      "k \<le> 1 \<or> toLowerCase (last (take k ?toks)) \<notin> set badEndings"
    by (auto simp: j)
  have T: "cleanTokens (take k ?toks)" "take k ?toks \<noteq> []"
    using c k(1) ne by (auto intro: cleanTokens_take)
  have b: "length (take k ?toks) \<le> 1 \<or> toLowerCase (last (take k ?toks)) \<notin> set badEndings"
    using k(4) by auto
  have "length (joinSpace (take k ?toks)) \<le> length t"
    using length_joinSpace_take [of k ?toks] by (simp add: j)
  with nomination_final [OF T b] show ?thesis by (simp add: k(3))
qed

lemma tidy_packToFit: "tidy t \<Longrightarrow> tidy (packToFit m t)"
proof -
  assume t: "tidy t"
  show ?thesis
  proof (cases "length t > m")
    case False
    with t show ?thesis by (simp add: packToFit_def)
  next
    case True
    then have ne: "t \<noteq> []" by auto
    from packToFit_take [OF t, of m] obtain k where
      k: "packToFit m t = joinSpace (take k (splitSpace t))" by blast
    show ?thesis
      unfolding k by (rule tidy_joinSpace [OF cleanTokens_take [OF tidy_tokens [OF t ne]]])
  qed
qed

text \<open>
  C2. For every headline \<open>H\<close> and budget \<open>B\<close>, \<open>fixNominationEndings\<close> applied to
  \<open>finalizeHeadline H B\<close> is at most \<open>B\<close> long, and the conservative clamp of the second
  variant is at most 60 long (its fixed budget). After the bad-ending repair the text
  cannot end in \<^verbatim>\<open>nomeado\<close> or \<^verbatim>\<open>nomeada\<close> preceded by a word boundary once the
  nomination step has run, so \<open>fixNominationEndings\<close> never lengthens it.
\<close>

theorem shorteners_within_budget:
  "length (fixNominationEndings (finalizeHeadline H B)) \<le> B \<and> length (conservative H) \<le> 60"
proof
  show "length (fixNominationEndings (finalizeHeadline H B)) \<le> B"
  proof (cases "H = []")
    case True
    then show ?thesis by (simp add: finalizeHeadline_def)
  next
    case False
    let ?t4 = "packToFit B (removalRounds removalRoundsRx B (cutAtSplitters splitters B (normalize1 H)))"
    have f: "finalizeHeadline H B = nominationCut (repairEnding ?t4)"
      using False by (simp add: finalizeHeadline_def Let_def)
    have t: "tidy ?t4" by (rule tidy_packToFit [OF tidy_lead])
    have "length ?t4 \<le> B" by (rule packToFit_fits)
    with nomination_after_repair [OF t] show ?thesis by (simp add: f)
  qed
  show "length (conservative H) \<le> 60"
    using conservative_length [of H] by (simp add: MAX_title_def)
qed



subsection \<open>Concrete headlines\<close>

lemmas ws_eval = normalize1_def collapseWs_def trim_def trimEnd_def isSpace_def js_def
lemmas rx_eval = removeWords_def removalRoundsRx_def matchesWord_def matchCI_def
  canonicalize_def isWordChar_def js_def
lemmas nom_eval = nominationCut_def replaceEhNomeado_def endsEhNomeado_def endsWithCI_def
  nominationTest_def endsNomeado_def ehNominationTest_def fixNominationEndings_def
  canonicalize_def isWordChar_def js_def Let_def
lemmas bad_eval = dropBadEndings.simps badEndings_def toLowerCase_def lowerUnit_def js_def

text \<open>
  C5, as the claim states it, fails: \<^verbatim>\<open>Prefeitura anuncia nova obra de\<close> fits the
  budget 70 and still loses its last word, a banned ending.
\<close>

theorem finalizeHeadline_fitting_counterexample:
  "length (js ''Prefeitura anuncia nova obra de'') \<le> 70 \<and>
   finalizeHeadline (js ''Prefeitura anuncia nova obra de'') 70 = js ''Prefeitura anuncia nova obra''"
proof -
  let ?X = "js ''Prefeitura anuncia nova obra de''"
  have ne: "?X \<noteq> []" and len: "length ?X \<le> 70" by (simp_all add: js_def)
  have e1: "normalize1 ?X = ?X" by (simp add: ws_eval)
  have e2: "cutAtSplitters splitters 70 ?X = ?X" by (simp add: splitters_def js_def)
  have e3: "repairEnding ?X = js ''Prefeitura anuncia nova obra''"
  proof -
    have a: "splitSpace ?X = map js [''Prefeitura'', ''anuncia'', ''nova'', ''obra'', ''de'']"
      by (simp add: js_def)
    have b: "dropBadEndings (map js [''Prefeitura'', ''anuncia'', ''nova'', ''obra'', ''de''])
               = map js [''Prefeitura'', ''anuncia'', ''nova'', ''obra'']"
      by (simp add: bad_eval)
    have c: "trim (joinSpace (map js [''Prefeitura'', ''anuncia'', ''nova'', ''obra'']))
               = js ''Prefeitura anuncia nova obra''"
      by (simp add: ws_eval)
    show ?thesis by (simp only: repairEnding_def a b c)
  qed
  have e4: "nominationCut (js ''Prefeitura anuncia nova obra'') = js ''Prefeitura anuncia nova obra''"
    by (simp add: nom_eval)
  have r: "removalRounds removalRoundsRx 70 ?X = ?X" by (rule removalRounds_fits [OF len])
  have p: "packToFit 70 ?X = ?X" using len by (simp add: packToFit_def)
  have "finalizeHeadline ?X 70 = js ''Prefeitura anuncia nova obra''"
    by (simp only: finalizeHeadline_def Let_def e1 e2 r p e3 e4 ne if_False)
  with len show ?thesis by simp
qed

text \<open>
  C10, as the claim states it, fails: \<^verbatim>\<open>Inacreditavel\<close> followed by the ellipsis
  character U+2026 contains no space, is 14 code units long, which exceeds the budget
  13, and no stop-word expression matches in it; the normalisation removes the ellipsis,
  the word then fits, and the result is the word, not the empty string.
\<close>

theorem finalizeHeadline_single_word_counterexample:
  "32 \<notin> set (js ''Inacreditavel'' @ [0x2026])
   \<and> length (js ''Inacreditavel'' @ [0x2026]) > 13
   \<and> removeWords (removalRoundsRx ! 0) (js ''Inacreditavel'' @ [0x2026]) = js ''Inacreditavel'' @ [0x2026]
   \<and> removeWords (removalRoundsRx ! 1) (js ''Inacreditavel'' @ [0x2026]) = js ''Inacreditavel'' @ [0x2026]
   \<and> removeWords (removalRoundsRx ! 2) (js ''Inacreditavel'' @ [0x2026]) = js ''Inacreditavel'' @ [0x2026]
   \<and> fixNominationEndings (finalizeHeadline (js ''Inacreditavel'' @ [0x2026]) 13) = js ''Inacreditavel''"
proof -
  let ?X = "js ''Inacreditavel'' @ [0x2026]"
  let ?Y = "js ''Inacreditavel''"
  have a: "32 \<notin> set ?X" "length ?X > 13" "?X \<noteq> []" by (simp_all add: js_def)
  have r: "removeWords (removalRoundsRx ! 0) ?X = ?X" "removeWords (removalRoundsRx ! 1) ?X = ?X"
    "removeWords (removalRoundsRx ! 2) ?X = ?X"
    by (simp_all add: rx_eval)
  have e1: "normalize1 ?X = ?Y" by (simp add: ws_eval)
  have len: "length ?Y \<le> 13" by (simp add: js_def)
  have e2: "cutAtSplitters splitters 13 ?Y = ?Y" by (simp add: splitters_def js_def)
  have e3: "repairEnding ?Y = ?Y"
  proof -
    have s: "splitSpace ?Y = [?Y]" by (simp add: js_def)
    have d: "dropBadEndings [?Y] = [?Y]" by (simp add: bad_eval)
    have t: "trim (joinSpace [?Y]) = ?Y" by (simp add: ws_eval)
    show ?thesis by (simp only: repairEnding_def s d t)
  qed
  have e4: "nominationCut ?Y = ?Y" by (simp add: nom_eval)
  have e5: "fixNominationEndings ?Y = ?Y" by (simp add: nom_eval)
  have rr: "removalRounds removalRoundsRx 13 ?Y = ?Y" by (rule removalRounds_fits [OF len])
  have p: "packToFit 13 ?Y = ?Y" using len by (simp add: packToFit_def)
  have "finalizeHeadline ?X 13 = ?Y"
    by (simp only: finalizeHeadline_def Let_def e1 e2 rr p e3 e4 a(3) if_False)
  then show ?thesis using a r e5 by simp
qed

theorem finalizeHeadline_single_word_witness:
  "32 \<notin> set (normalize1 (js ''Inconstitucionalissimamente''))
   \<and> length (normalize1 (js ''Inconstitucionalissimamente'')) > 20
   \<and> fixNominationEndings (finalizeHeadline (js ''Inconstitucionalissimamente'') 20) = []"
proof -
  let ?X = "js ''Inconstitucionalissimamente''"
  have e1: "normalize1 ?X = ?X" by (simp add: ws_eval)
  have a: "32 \<notin> set (normalize1 ?X)" "length (normalize1 ?X) > 20"
    unfolding e1 by (simp_all add: js_def)
  have r: "list_all (\<lambda>rx. removeWords rx (normalize1 ?X) = normalize1 ?X) removalRoundsRx"
    unfolding e1 by (simp add: rx_eval)
  from finalizeHeadline_single_word [OF a r] a show ?thesis by simp
qed

theorem finalizeHeadline_fitting_witness:
  "length (js ''Chuva forte alaga ruas'') \<le> 70
   \<and> finalizeHeadline (js ''Chuva forte alaga ruas'') 70 = js ''Chuva forte alaga ruas''"
proof -
  let ?X = "js ''Chuva forte alaga ruas''"
  have len: "length ?X \<le> 70" by (simp add: js_def)
  have e1: "normalize1 ?X = ?X" by (simp add: ws_eval)
  have e2: "list_all (\<lambda>s. \<not> includesStr ?X s) splitters" by (simp add: splitters_def js_def)
  have e3: "toLowerCase (last (splitSpace ?X)) \<notin> set badEndings"
    by (simp add: bad_eval)
  have e4: "\<not> endsNomeado ?X" by (simp add: nom_eval)
  from finalizeHeadline_fitting [of ?X 70] len e1 e2 e3 e4 show ?thesis by blast
qed


lemma ascii_inert: "list_all (\<lambda>u. u < 0x0300) s \<Longrightarrow> normalizeNFC s = s"
  by (rule normalizeNFC_inert) (auto simp: list_all_iff combiningMarks_def)




text \<open>
  The word boundary \<^verbatim>\<open>\b\<close> is ASCII-only, so a stop word is also matched inside a
  word in which an accented letter follows or precedes it: in \<^verbatim>\<open>Para\<close>, U+00ED,
  \<^verbatim>\<open>ba\<close> the first expression removes \<^verbatim>\<open>Para\<close>, and in \<^verbatim>\<open>sa\<close>, U+00FA,
  \<^verbatim>\<open>de\<close> the second removes \<^verbatim>\<open>de\<close>.
\<close>

lemma removeWords_inside_accented_word:
  "removeWords (removalRoundsRx ! 0) (js ''Para'' @ [0xED] @ js ''ba'') = [0xED] @ js ''ba''"
  "removeWords (removalRoundsRx ! 1) (js ''sa'' @ [0xFA] @ js ''de'') = js ''sa'' @ [0xFA]"
  by (simp_all add: rx_eval)

text \<open>
  C3. The claim lets the shortener drop words but never cut one, and leave no ellipsis.
  The code removes stop words with expressions delimited by \<^verbatim>\<open>\b\<close>, and an accented
  letter is no word character for \<^verbatim>\<open>\b\<close>: with the budget 70 the headline
  \<^verbatim>\<open>Para\<close>, U+00ED, \<^verbatim>\<open>ba recebe recursos federais para ampliar rede de hospitais p\<close>,
  U+00FA, \<^verbatim>\<open>blicos\<close> of 72 code units loses the first four letters of its first word
  together with the preposition, and the result begins with the fragment U+00ED,
  \<^verbatim>\<open>ba\<close>, which is no word of the normalised headline. The ellipsis is removed in a
  single pass, so of a period, U+2026 and two periods the three periods remain in the
  result. The steps after the stop-word removal do keep whole words (lemma
  \<open>pack_repair_take\<close>), and the character U+2026 never reaches the output (lemma
  \<open>finalizeHeadline_no_ellipsis\<close>).
\<close>

theorem finalizeHeadline_cuts_inside_word:
  "fixNominationEndings (finalizeHeadline
      (js ''Para'' @ [0xED] @ js ''ba recebe recursos federais para ampliar rede de hospitais p''
         @ [0xFA] @ js ''blicos'') 70)
     = [0xED] @ js ''ba recebe recursos federais ampliar rede de hospitais p'' @ [0xFA] @ js ''blicos''
   \<and> hd (splitSpace (normalize1
      (js ''Para'' @ [0xED] @ js ''ba recebe recursos federais para ampliar rede de hospitais p''
         @ [0xFA] @ js ''blicos''))) = js ''Para'' @ [0xED] @ js ''ba''
   \<and> hd (splitSpace (fixNominationEndings (finalizeHeadline
      (js ''Para'' @ [0xED] @ js ''ba recebe recursos federais para ampliar rede de hospitais p''
         @ [0xFA] @ js ''blicos'') 70))) = [0xED] @ js ''ba''
   \<and> [0xED] @ js ''ba'' \<notin> set (splitSpace (normalize1
      (js ''Para'' @ [0xED] @ js ''ba recebe recursos federais para ampliar rede de hospitais p''
         @ [0xFA] @ js ''blicos'')))
   \<and> fixNominationEndings (finalizeHeadline (js ''E agora'' @ [46, 0x2026, 46, 46]) 70)
     = js ''E agora...''
   \<and> includesStr (fixNominationEndings (finalizeHeadline (js ''E agora'' @ [46, 0x2026, 46, 46]) 70))
       (js ''...'')"
proof -
  let ?H = "js ''Para'' @ [0xED] @ js ''ba recebe recursos federais para ampliar rede de hospitais p''
         @ [0xFA] @ js ''blicos''"
  let ?W = "[0xED] @ js ''ba recebe recursos federais  ampliar rede de hospitais p''
         @ [0xFA] @ js ''blicos''"
  let ?R = "[0xED] @ js ''ba recebe recursos federais ampliar rede de hospitais p''
         @ [0xFA] @ js ''blicos''"
  have neH: "?H \<noteq> []" and lenH: "\<not> length ?H \<le> 70" and lenR: "length ?R \<le> 70"
    by (simp_all add: js_def)
  have h1: "normalize1 ?H = ?H" by (simp add: ws_eval)
  have h2: "cutAtSplitters splitters 70 ?H = ?H" by (simp add: splitters_def js_def)
  have w: "removeWords (removalRoundsRx ! 0) ?H = ?W" by (simp add: rx_eval)
  have w': "trim (collapseWs ?W) = ?R" by (simp add: ws_eval)
  have rx: "removalRoundsRx = (removalRoundsRx ! 0) # tl removalRoundsRx"
    by (simp add: removalRoundsRx_def)
  have h3: "removalRounds removalRoundsRx 70 ?H = ?R"
    by (subst rx) (simp only: removalRounds.simps lenH if_False w w' removalRounds_fits [OF lenR])
  have h4: "packToFit 70 ?R = ?R" using lenR by (simp add: packToFit_def)
  have sR: "splitSpace ?R = [[0xED] @ js ''ba'', js ''recebe'', js ''recursos'', js ''federais'',
      js ''ampliar'', js ''rede'', js ''de'', js ''hospitais'', js ''p'' @ [0xFA] @ js ''blicos'']"
    by (simp add: js_def)
  have sH: "splitSpace ?H = [js ''Para'' @ [0xED] @ js ''ba'', js ''recebe'', js ''recursos'',
      js ''federais'', js ''para'', js ''ampliar'', js ''rede'', js ''de'', js ''hospitais'',
      js ''p'' @ [0xFA] @ js ''blicos'']"
    by (simp add: js_def)
  have h5: "repairEnding ?R = ?R"
  proof -
    have b: "dropBadEndings [[0xED] @ js ''ba'', js ''recebe'', js ''recursos'', js ''federais'',
      js ''ampliar'', js ''rede'', js ''de'', js ''hospitais'', js ''p'' @ [0xFA] @ js ''blicos'']
      = [[0xED] @ js ''ba'', js ''recebe'', js ''recursos'', js ''federais'',
      js ''ampliar'', js ''rede'', js ''de'', js ''hospitais'', js ''p'' @ [0xFA] @ js ''blicos'']"
      by (simp add: bad_eval)
    have c: "trim (joinSpace [[0xED] @ js ''ba'', js ''recebe'', js ''recursos'', js ''federais'',
      js ''ampliar'', js ''rede'', js ''de'', js ''hospitais'', js ''p'' @ [0xFA] @ js ''blicos''])
      = ?R"
      by (simp add: ws_eval)
    show ?thesis by (simp only: repairEnding_def sR b c)
  qed
  have h6: "nominationCut ?R = ?R" by (simp add: nom_eval)
  have h7: "fixNominationEndings ?R = ?R" by (simp add: nom_eval)
  have fH: "fixNominationEndings (finalizeHeadline ?H 70) = ?R"
    by (simp only: finalizeHeadline_def Let_def h1 h2 h3 h4 h5 h6 h7 neH if_False)
  let ?X = "js ''E agora'' @ [46, 0x2026, 46, 46]"
  let ?Y = "js ''E agora...''"
  have ne: "?X \<noteq> []" and len: "length ?Y \<le> 70" by (simp_all add: js_def)
  have e1: "normalize1 ?X = ?Y" by (simp add: ws_eval)
  have e2: "cutAtSplitters splitters 70 ?Y = ?Y" by (simp add: splitters_def js_def)
  have rr: "removalRounds removalRoundsRx 70 ?Y = ?Y" by (rule removalRounds_fits [OF len])
  have p: "packToFit 70 ?Y = ?Y" using len by (simp add: packToFit_def)
  have e3: "repairEnding ?Y = ?Y"
  proof -
    have a: "splitSpace ?Y = [js ''E'', js ''agora...'']" by (simp add: js_def)
    have b: "dropBadEndings [js ''E'', js ''agora...''] = [js ''E'', js ''agora...'']"
      by (simp add: bad_eval)
    have c: "trim (joinSpace [js ''E'', js ''agora...'']) = ?Y" by (simp add: ws_eval)
    show ?thesis by (simp only: repairEnding_def a b c)
  qed
  have e4: "nominationCut ?Y = ?Y" by (simp add: nom_eval)
  have e5: "fixNominationEndings ?Y = ?Y" by (simp add: nom_eval)
  have f: "fixNominationEndings (finalizeHeadline ?X 70) = ?Y"
    by (simp only: finalizeHeadline_def Let_def e1 e2 rr p e3 e4 e5 ne if_False)
  have i: "includesStr ?Y (js ''...'')" by (simp add: js_def)
  have m: "[0xED] @ js ''ba'' \<notin> set (splitSpace ?H)" unfolding sH by (simp add: js_def)
  show ?thesis
    unfolding fH f h1 using sR sH m i by simp
qed

text \<open>
  The conservative clamp of the second variant cuts at the last space of the first 61
  code units only if that space lies beyond index 40, and takes the first 60 code units
  otherwise: a headline with a long address ends inside the address.
\<close>

lemma conservative_slices_inside_word:
  "conservative (js ''Veja em https://r10.com.br/noticias/piaui/teresina/prefeitura-anuncia-obras'')
     = js ''Veja em https://r10.com.br/noticias/piaui/teresina/prefeitur''"
proof -
  let ?T = "js ''Veja em https://r10.com.br/noticias/piaui/teresina/prefeitura-anuncia-obras''"
  have d: "decodeEntities ?T = ?T"
    by (rule decodeEntities_id) (simp add: js_def)
  have n: "?T \<noteq> []" by (simp add: js_def)
  have i: "normalizeNFC ?T = ?T" by (rule ascii_inert) (simp add: js_def)
  have r: "trim (collapseWs (removeEllipsisRuns ?T)) = ?T"
    by (simp add: removeEllipsisRuns_def ws_eval)
  have c: "cleaned ?T = ?T"
    by (simp only: cleaned_def decodeHtmlEntitiesAll_def n if_False d i r)
  have l: "length ?T > MAX_title" by (simp add: js_def MAX_title_def)
  have cut: "lastIndexOf 32 (take (MAX_title + 1) ?T) = 7"
    by (simp add: lastIndexOf_def MAX_title_def js_def)
  have t: "trim (take MAX_title ?T) = js ''Veja em https://r10.com.br/noticias/piaui/teresina/prefeitur''"
    by (simp add: MAX_title_def ws_eval)
  show ?thesis
    by (simp only: conservative_def c Let_def cut l if_True) (simp add: t)
qed

theorem shorteners_within_budget_witness:
  "length (fixNominationEndings (finalizeHeadline (js ''Prefeito de Teresina anuncia nova obra de infraestrutura para o centro da cidade'') 55)) \<le> 55
   \<and> length (conservative (js ''Prefeito de Teresina anuncia nova obra de infraestrutura para o centro da cidade'')) \<le> 60"
  by (rule shorteners_within_budget)

end
